theory Spec2Isabelle
  imports Main "HOL-Library.Word"
begin

section \<open>JavaScript values used by \<^verbatim>\<open>childProcess.ts\<close>\<close>

text \<open>
  A JavaScript string is a sequence of UTF-16 code units. String literals of the source
  are ASCII and are written with \<open>str\<close>.
\<close>

type_synonym jsstring = "16 word list"

definition str :: "string \<Rightarrow> jsstring" where
  "str cs = map of_char cs"

text \<open>
  \<^verbatim>\<open>String.prototype.trim\<close> removes the code units that ECMAScript calls WhiteSpace or
  LineTerminator from both ends, and nothing else.
\<close>

definition isWhiteSpace :: "16 word \<Rightarrow> bool" where
  "isWhiteSpace c = (c \<in> set [0x0009, 0x000A, 0x000B, 0x000C, 0x000D, 0x0020, 0x00A0, 0x1680,
      0x2000, 0x2001, 0x2002, 0x2003, 0x2004, 0x2005, 0x2006, 0x2007, 0x2008, 0x2009, 0x200A,
      0x2028, 0x2029, 0x202F, 0x205F, 0x3000, 0xFEFF])"

definition trim :: "jsstring \<Rightarrow> jsstring" where
  "trim s = rev (dropWhile isWhiteSpace (rev (dropWhile isWhiteSpace s)))"

text \<open>
  \<^verbatim>\<open>Array.prototype.join(sep)\<close> on an array of strings. Called without an argument, as
  \<^verbatim>\<open>makeResult\<close> does, the separator is a comma.
\<close>

fun join :: "jsstring \<Rightarrow> jsstring list \<Rightarrow> jsstring" where
  "join sep [] = []"
| "join sep [x] = x"
| "join sep (x # y # ys) = x @ sep @ join sep (y # ys)"

definition join_default :: "jsstring list \<Rightarrow> jsstring" where
  "join_default xs = join (str '','') xs"

text \<open>Template literals print an integer in decimal.\<close>

fun showNat :: "nat \<Rightarrow> jsstring" where
  "showNat n = (if n < 10 then [of_nat (48 + n)] else showNat (n div 10) @ [of_nat (48 + n mod 10)])"

declare showNat.simps [simp del]

definition showInt :: "int \<Rightarrow> jsstring" where
  "showInt i = (if i < 0 then str ''-'' @ showNat (nat (- i)) else showNat (nat i))"

text \<open>
  A value that may be \<^verbatim>\<open>undefined\<close> or \<^verbatim>\<open>null\<close>: the close and exit events deliver
  \<^verbatim>\<open>number | null\<close> and \<^verbatim>\<open>string | null\<close>, and the result record stores what it is given.
\<close>

datatype 'a jsval = Undefined | Null | Val 'a

text \<open>\<^verbatim>\<open>new Error(message)\<close>.\<close>

datatype error = Error jsstring

section \<open>Options\<close>

text \<open>
  What an \<^verbatim>\<open>onStdout\<close>/\<^verbatim>\<open>onStderr\<close> callback does with its \<^verbatim>\<open>RunParameterContext\<close>: a
  sequence of calls of \<^verbatim>\<open>reportError\<close> and \<^verbatim>\<open>stop\<close>, chosen from the text of the chunk.
\<close>

datatype ctx_call =
    ReportError "jsstring + error"
  | CtxStop "bool option" "jsstring option"

type_synonym callback = "jsstring \<Rightarrow> ctx_call list"

datatype rejectOnError_t = RejectOnErrorBool bool | RejectOnErrorFn "error \<Rightarrow> error"

datatype rejectOnExit_t = RejectOnExitBool bool | RejectOnExitFn "int \<Rightarrow> error"

text \<open>The \<^verbatim>\<open>Timeout\<close> token as \<^verbatim>\<open>run\<close> reads it: its \<^verbatim>\<open>completed\<close> flag at that moment.\<close>

record Timeout =
  completed :: bool

type_synonym spawn_options = "jsstring \<rightharpoonup> jsstring"

text \<open>An optional property is \<open>None\<close> when the object does not carry it.\<close>

record ChildProcessOptions =
  logging :: "bool option"
  collect :: "bool option"
  waitForStreams :: "bool option"
  useForceStop :: "bool option"
  rejectOnError :: "rejectOnError_t option"
  rejectOnExit :: "rejectOnExit_t option"
  timeout :: "Timeout option"
  spawnOptions :: "spawn_options option"
  onStdout :: "callback option"
  onStderr :: "callback option"

record ChildProcessRunOptions = ChildProcessOptions +
  extraArgs :: "jsstring list option"

record ChildProcessResult =
  exitCode :: "int jsval"
  error :: "error jsval"
  stdout :: jsstring
  stderr :: jsstring
  signal :: "jsstring jsval"

section \<open>The process handle and the supervisor's state\<close>

text \<open>
  The handle \<^verbatim>\<open>crossSpawn.spawn\<close> returns: its \<^verbatim>\<open>pid\<close> (undefined when the process could
  not be created), whether \<^verbatim>\<open>stdout\<close> and \<^verbatim>\<open>stderr\<close> are streams, and the error
  \<^verbatim>\<open>kill(signal)\<close> throws for a signal, if any.
\<close>

record child_handle =
  handle_pid :: "int option"
  handle_stdout :: bool
  handle_stderr :: bool
  handle_kill :: "jsstring option \<Rightarrow> error option"

datatype spawn_result = SpawnReturns child_handle | SpawnThrows error

datatype promise = Pending | Resolved ChildProcessResult | Rejected error

text \<open>
  What one call of \<^verbatim>\<open>run\<close> creates: the merged options its closures see, the promise it
  returns, whether its \<^verbatim>\<open>timeout.timer.catch\<close> callback is still to fire, and whether its
  \<^verbatim>\<open>finally\<close> callback has run.
\<close>

record run_closure =
  mergedOptions :: ChildProcessRunOptions
  promise :: promise
  timerArmed :: bool
  finallyRan :: bool

datatype listener =
  ChildErrorL | StdoutErrorL | StderrErrorL | StdoutDataL | StderrDataL | CloseL | ExitL

datatype logger = Logger | NullLogger

datatype level = Info | Warn

text \<open>A \<^verbatim>\<open>waitUntil\<close> started by \<^verbatim>\<open>stop\<close>, with the values its callbacks captured.\<close>

record wait =
  wait_timeout :: nat
  wait_interval :: nat
  wait_truthy :: bool
  wait_pid :: int
  wait_command :: jsstring
  wait_pending :: bool

text \<open>
  The fields of the class, followed by what lives outside the object: the closures of the
  calls of \<^verbatim>\<open>run\<close>, the listeners registered on the handle and its streams (with the call
  of \<^verbatim>\<open>run\<close> they belong to), the signals given to \<^verbatim>\<open>kill\<close> by the calls that returned,
  the waits started, the lines written to the logger and the calls of \<^verbatim>\<open>crossSpawn.spawn\<close>.
\<close>

record ChildProcess =
  command :: jsstring
  args :: "jsstring list"
  options :: ChildProcessOptions
  childProcess :: "child_handle option"
  processErrors :: "error list"
  processResult :: "ChildProcessResult option"
  log :: logger
  stdoutChunks :: "jsstring list"
  stderrChunks :: "jsstring list"
  runs :: "run_closure list"
  owner :: nat
  listeners :: "listener set"
  kills :: "jsstring option list"
  waits :: "wait list"
  logged :: "(level \<times> jsstring) list"
  spawned :: "(jsstring \<times> jsstring list \<times> spawn_options) list"

definition new_ChildProcess :: "jsstring \<Rightarrow> jsstring list \<Rightarrow> ChildProcessOptions \<Rightarrow> ChildProcess" where
  "new_ChildProcess cmd argv opts =
     \<lparr>command = cmd, args = argv, options = opts, childProcess = None, processErrors = [],
      processResult = None,
      log = (if (case logging opts of None \<Rightarrow> True | Some b \<Rightarrow> b) then Logger else NullLogger),
      stdoutChunks = [], stderrChunks = [], runs = [], owner = 0, listeners = {}, kills = [],
      waits = [], logged = [], spawned = []\<rparr>"

section \<open>Accessors\<close>

text \<open>\<^verbatim>\<open>this.processErrors[0]\<close>: reading an empty array at 0 gives \<^verbatim>\<open>undefined\<close>.\<close>

definition firstError :: "ChildProcess \<Rightarrow> error jsval" where
  "firstError s = (case processErrors s of [] \<Rightarrow> Undefined | e # _ \<Rightarrow> Val e)"

definition makeResult :: "int jsval \<Rightarrow> jsstring jsval \<Rightarrow> ChildProcess \<Rightarrow> ChildProcessResult" where
  "makeResult code sg s =
     \<lparr>exitCode = code,
      error = firstError s,
      stdout = trim (join_default (stdoutChunks s)),
      stderr = trim (join_default (stderrChunks s)),
      signal = sg\<rparr>"

definition result :: "ChildProcess \<Rightarrow> ChildProcessResult option" where
  "result s = processResult s"

definition pid :: "ChildProcess \<Rightarrow> int" where
  "pid s = (case childProcess s of None \<Rightarrow> - 1
            | Some child \<Rightarrow> (case handle_pid child of None \<Rightarrow> - 1 | Some p \<Rightarrow> p))"

definition stopped :: "ChildProcess \<Rightarrow> bool" where
  "stopped s = (case childProcess s of None \<Rightarrow> False | Some child \<Rightarrow> processResult s \<noteq> None)"

definition toString :: "ChildProcess \<Rightarrow> jsstring" where
  "toString s =
     (if pid s > 0 then str ''PID '' @ showInt (pid s) @ str '':'' else str ''(not started)'')
     @ str '' ['' @ command s @ str '' '' @ join (str '' '') (args s) @ str '']''"

definition log_line :: "level \<Rightarrow> jsstring \<Rightarrow> ChildProcess \<Rightarrow> ChildProcess" where
  "log_line lv msg s =
     (case log s of Logger \<Rightarrow> s\<lparr>logged := logged s @ [(lv, msg)]\<rparr> | NullLogger \<Rightarrow> s)"

section \<open>Promises\<close>

text \<open>\<^verbatim>\<open>resolve\<close> and \<^verbatim>\<open>reject\<close> of the promise of call \<open>i\<close>: only a pending promise changes.\<close>

definition settle :: "nat \<Rightarrow> promise \<Rightarrow> ChildProcess \<Rightarrow> ChildProcess" where
  "settle i p s =
     (case promise (runs s ! i) of
        Pending \<Rightarrow> s\<lparr>runs := (runs s)[i := (runs s ! i)\<lparr>promise := p\<rparr>]\<rparr>
      | _ \<Rightarrow> s)"

section \<open>stop\<close>

text \<open>
  The first component of the result is the exception the call throws, if any.
  \<^verbatim>\<open>waitUntil\<close> comes from \<^verbatim>\<open>timeoutUtils\<close>: the call is recorded with its arguments, and
  the value it resolves with arrives later (\<open>waitSettled\<close>).
\<close>

definition SIGKILL :: jsstring where
  "SIGKILL = str ''SIGKILL''"

definition already_killed :: error where
  "already_killed = Error (str ''Attempting to kill a process that has already been killed'')"

text \<open>
  \<^verbatim>\<open>waitUntil(async () => this.stopped, { timeout: 3000, interval: 200, truthy: true })\<close>,
  with the \<^verbatim>\<open>pid\<close> and \<^verbatim>\<open>command\<close> its \<^verbatim>\<open>catch\<close> callback prints.
\<close>

definition forced_wait :: "ChildProcess \<Rightarrow> wait" where
  "forced_wait s = \<lparr>wait_timeout = 3000, wait_interval = 200, wait_truthy = True,
                     wait_pid = pid s, wait_command = command s, wait_pending = True\<rparr>"

definition stop :: "bool option \<Rightarrow> jsstring option \<Rightarrow> ChildProcess \<Rightarrow> error option \<times> ChildProcess" where
  "stop force sg s =
     (case childProcess s of
        None \<Rightarrow> (None, s)
      | Some child \<Rightarrow>
          if \<not> stopped s then
            (case handle_kill child sg of
               Some e \<Rightarrow> (Some e, s)
             | None \<Rightarrow>
                 let s1 = s\<lparr>kills := kills s @ [sg]\<rparr> in
                 if force = Some True then (None, s1\<lparr>waits := waits s1 @ [forced_wait s]\<rparr>)
                 else (None, s1))
          else (Some already_killed, s))"

definition sigkill_failed :: "int \<Rightarrow> jsstring \<Rightarrow> jsstring" where
  "sigkill_failed p cmd = str ''stop(): SIGKILL failed: pid='' @ showInt p @ str '' command='' @ cmd"

text \<open>
  The \<^verbatim>\<open>then\<close> and \<^verbatim>\<open>catch\<close> callbacks of wait \<open>k\<close>; \<open>polled\<close> is the value the wait
  resolved with: true when it saw \<^verbatim>\<open>stopped\<close>, false (\<^verbatim>\<open>undefined\<close>) when its deadline elapsed.
\<close>

definition waitSettled :: "nat \<Rightarrow> bool \<Rightarrow> ChildProcess \<Rightarrow> ChildProcess" where
  "waitSettled k polled s =
     (let w = waits s ! k;
          s1 = s\<lparr>waits := (waits s)[k := w\<lparr>wait_pending := False\<rparr>]\<rparr>
      in if \<not> polled then
           (case childProcess s1 of
              None \<Rightarrow> s1
            | Some child \<Rightarrow>
                (case handle_kill child (Some SIGKILL) of
                   Some e \<Rightarrow> log_line Warn (sigkill_failed (wait_pid w) (wait_command w)) s1
                 | None \<Rightarrow> s1\<lparr>kills := kills s1 @ [Some SIGKILL]\<rparr>))
         else s1)"

section \<open>run\<close>

definition errorHandler :: "nat \<Rightarrow> error \<Rightarrow> bool option \<Rightarrow> ChildProcess \<Rightarrow> error option \<times> ChildProcess" where
  "errorHandler i err force s =
     (let opts = mergedOptions (runs s ! i);
          f = (case force of None \<Rightarrow> useForceStop opts | Some b \<Rightarrow> Some b);
          s1 = s\<lparr>processErrors := processErrors s @ [err]\<rparr>
      in case (if \<not> stopped s1 then stop f None s1 else (None, s1)) of
           (Some thrown, s2) \<Rightarrow> (Some thrown, s2)
         | (None, s2) \<Rightarrow>
             (case rejectOnError opts of
                Some (RejectOnErrorFn g) \<Rightarrow> (None, settle i (Rejected (g err)) s2)
              | Some (RejectOnErrorBool True) \<Rightarrow> (None, settle i (Rejected err) s2)
              | _ \<Rightarrow> (None, s2)))"

text \<open>The calls a callback makes on its context, in order, up to the first that throws.\<close>

fun ctx_calls :: "nat \<Rightarrow> ctx_call list \<Rightarrow> ChildProcess \<Rightarrow> error option \<times> ChildProcess" where
  "ctx_calls i [] s = (None, s)"
| "ctx_calls i (c # cs) s =
     (case (case c of
              ReportError err \<Rightarrow>
                errorHandler i (case err of Inl msg \<Rightarrow> Error msg | Inr e \<Rightarrow> e) None s
            | CtxStop force sg \<Rightarrow> stop force sg s) of
        (Some thrown, s1) \<Rightarrow> (Some thrown, s1)
      | (None, s1) \<Rightarrow> ctx_calls i cs s1)"

definition stdoutData :: "nat \<Rightarrow> jsstring \<Rightarrow> ChildProcess \<Rightarrow> error option \<times> ChildProcess" where
  "stdoutData i text s =
     (let opts = mergedOptions (runs s ! i);
          s1 = (if collect opts = Some True then s\<lparr>stdoutChunks := stdoutChunks s @ [text]\<rparr> else s)
      in case onStdout opts of None \<Rightarrow> (None, s1) | Some cb \<Rightarrow> ctx_calls i (cb text) s1)"

definition stderrData :: "nat \<Rightarrow> jsstring \<Rightarrow> ChildProcess \<Rightarrow> error option \<times> ChildProcess" where
  "stderrData i text s =
     (let opts = mergedOptions (runs s ! i);
          s1 = (if collect opts = Some True then s\<lparr>stderrChunks := stderrChunks s @ [text]\<rparr> else s)
      in case onStderr opts of None \<Rightarrow> (None, s1) | Some cb \<Rightarrow> ctx_calls i (cb text) s1)"

definition closeHandler :: "nat \<Rightarrow> int jsval \<Rightarrow> jsstring jsval \<Rightarrow> ChildProcess \<Rightarrow> ChildProcess" where
  "closeHandler i code sg s =
     (let r = makeResult code sg s in settle i (Resolved r) (s\<lparr>processResult := Some r\<rparr>))"

definition nonzero_exit :: "int \<Rightarrow> error" where
  "nonzero_exit code = Error (str ''Command exited with non-zero code: '' @ showInt code)"

definition exitHandler :: "nat \<Rightarrow> int jsval \<Rightarrow> jsstring jsval \<Rightarrow> ChildProcess \<Rightarrow> ChildProcess" where
  "exitHandler i code sg s =
     (let opts = mergedOptions (runs s ! i);
          r = makeResult (case code of Val n \<Rightarrow> Val n | _ \<Rightarrow> Val (- 1))
                         (case sg of Val x \<Rightarrow> Val x | _ \<Rightarrow> Undefined) s;
          s1 = s\<lparr>processResult := Some r\<rparr>;
          s2 = (case code of
                  Val n \<Rightarrow>
                    if n \<noteq> 0 then
                      (case rejectOnExit opts of
                         Some (RejectOnExitFn g) \<Rightarrow> settle i (Rejected (g n)) s1
                       | Some (RejectOnExitBool True) \<Rightarrow> settle i (Rejected (nonzero_exit n)) s1
                       | _ \<Rightarrow> s1)
                    else s1
                | _ \<Rightarrow> s1)
      in if waitForStreams opts = Some False then settle i (Resolved r) s2 else s2)"

definition cleanup :: "ChildProcess \<Rightarrow> ChildProcess" where
  "cleanup s = s\<lparr>listeners := {}\<rparr>"

text \<open>
  \<^verbatim>\<open>{ ...this.options, ...params, spawnOptions: { ... } }\<close> followed by the two defaults.
\<close>

definition orEmpty :: "spawn_options option \<Rightarrow> spawn_options" where
  "orEmpty m = (case m of None \<Rightarrow> Map.empty | Some f \<Rightarrow> f)"

definition over :: "'a option \<Rightarrow> 'a option \<Rightarrow> 'a option" where
  "over base param = (case param of None \<Rightarrow> base | Some v \<Rightarrow> Some v)"

definition mergeOptions :: "ChildProcessOptions \<Rightarrow> ChildProcessRunOptions \<Rightarrow> ChildProcessRunOptions" where
  "mergeOptions base params =
     \<lparr>logging = over (logging base) (logging params),
      collect = over (collect base) (collect params),
      waitForStreams = over (waitForStreams base) (waitForStreams params),
      useForceStop = over (useForceStop base) (useForceStop params),
      rejectOnError = over (rejectOnError base) (rejectOnError params),
      rejectOnExit = over (rejectOnExit base) (rejectOnExit params),
      timeout = over (timeout base) (timeout params),
      spawnOptions =
        Some (orEmpty (spawnOptions base) ++ orEmpty (spawnOptions params)),
      onStdout = over (onStdout base) (onStdout params),
      onStderr = over (onStderr base) (onStderr params),
      extraArgs = extraArgs params\<rparr>"

definition withDefaults :: "ChildProcessRunOptions \<Rightarrow> ChildProcessRunOptions" where
  "withDefaults m =
     m\<lparr>collect := Some (case collect m of None \<Rightarrow> True | Some b \<Rightarrow> b),
       waitForStreams := Some (case waitForStreams m of None \<Rightarrow> True | Some b \<Rightarrow> b)\<rparr>"

definition already_started :: error where
  "already_started = Error (str ''process already started'')"

definition timeout_completed :: error where
  "timeout_completed = Error (str ''Timeout token was already completed.'')"

definition registered :: "child_handle \<Rightarrow> listener set" where
  "registered child =
     {ChildErrorL, CloseL, ExitL}
     \<union> (if handle_stdout child then {StdoutErrorL, StdoutDataL} else {})
     \<union> (if handle_stderr child then {StderrErrorL, StderrDataL} else {})"

text \<open>
  The function given to \<^verbatim>\<open>new Promise\<close>, for call \<open>i\<close>, in its two parts: the
  \<^verbatim>\<open>if (timeout)\<close> block, which throws or registers the \<^verbatim>\<open>catch\<close> callback on the
  timer, and the \<^verbatim>\<open>try\<close>/\<^verbatim>\<open>catch\<close> around \<^verbatim>\<open>crossSpawn.spawn\<close> with the registration
  of the listeners; \<open>sp\<close> is what \<^verbatim>\<open>crossSpawn.spawn\<close> does when it is reached. An
  exception leaving the function rejects the promise.
\<close>

definition attach_timeout :: "nat \<Rightarrow> ChildProcess \<Rightarrow> error + ChildProcess" where
  "attach_timeout i s =
     (case timeout (mergedOptions (runs s ! i)) of
        None \<Rightarrow> Inr s
      | Some t \<Rightarrow>
          if completed t then Inl timeout_completed
          else Inr (s\<lparr>runs := (runs s)[i := (runs s ! i)\<lparr>timerArmed := True\<rparr>]\<rparr>))"

definition try_spawn :: "nat \<Rightarrow> jsstring list \<Rightarrow> spawn_result \<Rightarrow> ChildProcess \<Rightarrow> error option \<times> ChildProcess" where
  "try_spawn i argv sp s =
     (let opts = mergedOptions (runs s ! i);
          s1 = s\<lparr>spawned := spawned s @ [(command s, argv, orEmpty (spawnOptions opts))]\<rparr>
      in case sp of
           SpawnThrows err \<Rightarrow> errorHandler i err None s1
         | SpawnReturns child \<Rightarrow>
             (None, s1\<lparr>childProcess := Some child, owner := i, listeners := registered child\<rparr>))"

definition executor :: "nat \<Rightarrow> jsstring list \<Rightarrow> spawn_result \<Rightarrow> ChildProcess \<Rightarrow> ChildProcess" where
  "executor i argv sp s =
     (case attach_timeout i s of
        Inl thrown \<Rightarrow> settle i (Rejected thrown) s
      | Inr s1 \<Rightarrow>
          (case try_spawn i argv sp s1 of
             (Some thrown, s2) \<Rightarrow> settle i (Rejected thrown) s2
           | (None, s2) \<Rightarrow> s2))"

text \<open>
  \<^verbatim>\<open>run\<close> is an \<^verbatim>\<open>async\<close> function: the guard's exception is a promise rejected at once,
  with no closure behind it; otherwise the call returns the promise of a new closure.
\<close>

datatype run_return = RejectedAtOnce error | PromiseOf nat

definition run :: "ChildProcessRunOptions \<Rightarrow> spawn_result \<Rightarrow> ChildProcess \<Rightarrow> run_return \<times> ChildProcess" where
  "run params sp s =
     (if childProcess s \<noteq> None then (RejectedAtOnce already_started, s)
      else
        let s1 = log_line Info (str ''Running: '' @ toString s) s;
            merged = mergeOptions (options s1) params;
            argv = args s1 @ (case extraArgs merged of None \<Rightarrow> [] | Some xs \<Rightarrow> xs);
            i = length (runs s1);
            s2 = s1\<lparr>runs := runs s1 @
                   [\<lparr>mergedOptions = withDefaults merged, promise = Pending,
                     timerArmed = False, finallyRan = False\<rparr>]\<rparr>
        in (PromiseOf i, executor i argv sp s2))"

section \<open>Events\<close>

text \<open>
  Everything that happens to a supervisor: its caller invokes \<^verbatim>\<open>run\<close> or \<^verbatim>\<open>stop\<close>, the
  handle or one of its streams emits an event, the timer of the token of call \<open>i\<close> rejects,
  a wait resolves, or the \<^verbatim>\<open>finally\<close> callback of call \<open>i\<close> runs. An event reaches a
  listener only while that listener is registered, and a \<^verbatim>\<open>once\<close> listener is removed
  before it is called.
\<close>

datatype event =
    CallRun ChildProcessRunOptions spawn_result
  | CallStop "bool option" "jsstring option"
  | ChildError error
  | StdoutError error
  | StderrError error
  | StdoutData jsstring
  | StderrData jsstring
  | Close "int jsval" "jsstring jsval"
  | Exit "int jsval" "jsstring jsval"
  | TimerRejected nat error
  | WaitUntilSettled nat bool
  | Finally nat

fun step :: "event \<Rightarrow> ChildProcess \<Rightarrow> error option \<times> ChildProcess" where
  "step (CallRun params sp) s = (None, snd (run params sp s))"
| "step (CallStop force sg) s = stop force sg s"
| "step (ChildError err) s =
     (if ChildErrorL \<in> listeners s then errorHandler (owner s) err None s else (None, s))"
| "step (StdoutError err) s =
     (if StdoutErrorL \<in> listeners s then errorHandler (owner s) err None s else (None, s))"
| "step (StderrError err) s =
     (if StderrErrorL \<in> listeners s then errorHandler (owner s) err None s else (None, s))"
| "step (StdoutData text) s =
     (if StdoutDataL \<in> listeners s then stdoutData (owner s) text s else (None, s))"
| "step (StderrData text) s =
     (if StderrDataL \<in> listeners s then stderrData (owner s) text s else (None, s))"
| "step (Close code sg) s =
     (if CloseL \<in> listeners s
      then (None, closeHandler (owner s) code sg (s\<lparr>listeners := listeners s - {CloseL}\<rparr>))
      else (None, s))"
| "step (Exit code sg) s =
     (if ExitL \<in> listeners s
      then (None, exitHandler (owner s) code sg (s\<lparr>listeners := listeners s - {ExitL}\<rparr>))
      else (None, s))"
| "step (TimerRejected i err) s =
     (if i < length (runs s) \<and> timerArmed (runs s ! i)
      then errorHandler i err (Some True)
             (s\<lparr>runs := (runs s)[i := (runs s ! i)\<lparr>timerArmed := False\<rparr>]\<rparr>)
      else (None, s))"
| "step (WaitUntilSettled k polled) s =
     (if k < length (waits s) \<and> wait_pending (waits s ! k) then (None, waitSettled k polled s)
      else (None, s))"
| "step (Finally i) s =
     (if i < length (runs s) \<and> promise (runs s ! i) \<noteq> Pending \<and> \<not> finallyRan (runs s ! i)
      then (None, cleanup (s\<lparr>runs := (runs s)[i := (runs s ! i)\<lparr>finallyRan := True\<rparr>]\<rparr>))
      else (None, s))"

fun exec :: "event list \<Rightarrow> ChildProcess \<Rightarrow> ChildProcess" where
  "exec [] s = s"
| "exec (e # es) s = exec es (snd (step e s))"

section \<open>Relations between states\<close>

text \<open>Whether \<^verbatim>\<open>if (rejectOnError)\<close> takes its branch.\<close>

definition rejects :: "rejectOnError_t option \<Rightarrow> bool" where
  "rejects r = (case r of Some (RejectOnErrorFn g) \<Rightarrow> True | Some (RejectOnErrorBool b) \<Rightarrow> b | None \<Rightarrow> False)"

text \<open>
  What \<open>errorHandler i\<close>, \<open>stop\<close> and the context calls of a callback of call \<open>i\<close> can
  do to a state: they append errors, signals and waits, and may reject the promise of
  call \<open>i\<close> when its options say so. Everything else stays.
\<close>

definition error_path :: "nat \<Rightarrow> ChildProcess \<Rightarrow> ChildProcess \<Rightarrow> bool" where
  "error_path i s s' \<longleftrightarrow>
     childProcess s' = childProcess s \<and> processResult s' = processResult s \<and>
     listeners s' = listeners s \<and> owner s' = owner s \<and> log s' = log s \<and> logged s' = logged s \<and>
     command s' = command s \<and> args s' = args s \<and> options s' = options s \<and> spawned s' = spawned s \<and>
     (\<exists>es. processErrors s' = processErrors s @ es) \<and>
     (\<exists>ks. kills s' = kills s @ ks) \<and>
     (\<exists>ws. waits s' = waits s @ ws) \<and>
     (runs s' = runs s \<or>
      (rejects (rejectOnError (mergedOptions (runs s ! i))) \<and> i < length (runs s) \<and>
       promise (runs s ! i) = Pending \<and>
       (\<exists>e. runs s' = (runs s)[i := (runs s ! i)\<lparr>promise := Rejected e\<rparr>])))"

text \<open>What any event can do to a state, as far as the theorems below need it.\<close>

definition wait_step :: "wait \<Rightarrow> wait \<Rightarrow> bool" where
  "wait_step w w' \<longleftrightarrow> w' = w \<or> w' = w\<lparr>wait_pending := False\<rparr>"

definition evolves :: "ChildProcess \<Rightarrow> ChildProcess \<Rightarrow> bool" where
  "evolves s s' \<longleftrightarrow>
     (childProcess s \<noteq> None \<longrightarrow> childProcess s' = childProcess s) \<and>
     (processResult s \<noteq> None \<longrightarrow> processResult s' \<noteq> None) \<and>
     log s' = log s \<and> command s' = command s \<and> args s' = args s \<and> options s' = options s \<and>
     (\<exists>es. processErrors s' = processErrors s @ es) \<and>
     length (waits s) \<le> length (waits s') \<and>
     (\<forall>k < length (waits s). wait_step (waits s ! k) (waits s' ! k)) \<and>
     length (runs s) \<le> length (runs s') \<and>
     (\<forall>j < length (runs s). mergedOptions (runs s' ! j) = mergedOptions (runs s ! j))"

section \<open>Concrete inputs\<close>

text \<open>
  The empty options object \<^verbatim>\<open>{}\<close> (the default of both the constructor and \<^verbatim>\<open>run\<close>), a
  handle with a pid, both streams and a \<^verbatim>\<open>kill\<close> that never throws, and the supervisor
  \<^verbatim>\<open>new ChildProcess('echo', ['hello'])\<close>.
\<close>

definition noOptions :: ChildProcessOptions where
  "noOptions = \<lparr>logging = None, collect = None, waitForStreams = None, useForceStop = None,
     rejectOnError = None, rejectOnExit = None, timeout = None, spawnOptions = None,
     onStdout = None, onStderr = None\<rparr>"

definition noParams :: ChildProcessRunOptions where
  "noParams = \<lparr>logging = None, collect = None, waitForStreams = None, useForceStop = None,
     rejectOnError = None, rejectOnExit = None, timeout = None, spawnOptions = None,
     onStdout = None, onStderr = None, extraArgs = None\<rparr>"

definition piped_child :: "int \<Rightarrow> child_handle" where
  "piped_child p = \<lparr>handle_pid = Some p, handle_stdout = True, handle_stderr = True,
     handle_kill = (\<lambda>sg. None)\<rparr>"

definition echo :: ChildProcess where
  "echo = new_ChildProcess (str ''echo'') [str ''hello''] noOptions"

section \<open>What one event can change\<close>

text \<open>
  How the closure of one call of \<^verbatim>\<open>run\<close> can change in one event: its options stay; its
  promise stays, or is rejected (by \<open>errorHandler\<close> when \<^verbatim>\<open>rejectOnError\<close> is set, or by the
  exit listener of the call that owns the handle), or is resolved by the close or exit
  listener of the owning call, with a result whose error is \<open>fe\<close>.
\<close>

definition closure_evolves :: "bool \<Rightarrow> listener set \<Rightarrow> error jsval \<Rightarrow> run_closure \<Rightarrow> run_closure \<Rightarrow> bool" where
  "closure_evolves own L fe c c' \<longleftrightarrow>
     mergedOptions c' = mergedOptions c \<and>
     (promise c' = promise c \<or>
      (promise c = Pending \<and> (\<exists>e. promise c' = Rejected e) \<and>
         (rejects (rejectOnError (mergedOptions c)) \<or> (own \<and> ExitL \<in> L))) \<or>
      (promise c = Pending \<and> (\<exists>r. promise c' = Resolved r \<and> error r = fe) \<and> own \<and>
         (CloseL \<in> L \<or> ExitL \<in> L)))"

text \<open>
  What the function given to \<^verbatim>\<open>new Promise\<close> can do for call \<open>i\<close>: it touches the closure
  of call \<open>i\<close> only, and either leaves the handle alone or installs the spawned one with
  its listeners.
\<close>

definition spawn_path :: "nat \<Rightarrow> ChildProcess \<Rightarrow> ChildProcess \<Rightarrow> bool" where
  "spawn_path i s s' \<longleftrightarrow>
     processResult s' = processResult s \<and> length (runs s') = length (runs s) \<and>
     (\<forall>j. j \<noteq> i \<longrightarrow> runs s' ! j = runs s ! j) \<and>
     (promise (runs s' ! i) = promise (runs s ! i) \<or>
      (promise (runs s ! i) = Pending \<and> (\<exists>e. promise (runs s' ! i) = Rejected e))) \<and>
     ((childProcess s' = childProcess s \<and> listeners s' = listeners s \<and> owner s' = owner s) \<or>
      (\<exists>child. childProcess s' = Some child \<and> listeners s' = registered child \<and> owner s' = i))"

text \<open>
  The \<^verbatim>\<open>once\<close> listener an event removes, and whether an event assigns
  \<^verbatim>\<open>this.processResult\<close>: only the close and exit listeners do, while they are registered.
\<close>

definition fired :: "event \<Rightarrow> listener set" where
  "fired ev = (case ev of Close code sg \<Rightarrow> {CloseL} | Exit code sg \<Rightarrow> {ExitL} | _ \<Rightarrow> {})"

definition assigns :: "event \<Rightarrow> ChildProcess \<Rightarrow> bool" where
  "assigns ev s = (case ev of Close code sg \<Rightarrow> CloseL \<in> listeners s
                   | Exit code sg \<Rightarrow> ExitL \<in> listeners s | _ \<Rightarrow> False)"

definition step_ok :: "event \<Rightarrow> ChildProcess \<Rightarrow> ChildProcess \<Rightarrow> bool" where
  "step_ok ev s s' \<longleftrightarrow>
     (\<forall>j < length (runs s).
        closure_evolves (j = owner s) (listeners s) (firstError s) (runs s ! j) (runs s' ! j)) \<and>
     (\<forall>j. length (runs s) \<le> j \<and> j < length (runs s') \<longrightarrow>
        promise (runs s' ! j) = Pending \<or> (\<exists>e. promise (runs s' ! j) = Rejected e)) \<and>
     length (runs s) \<le> length (runs s') \<and>
     ((listeners s' \<subseteq> listeners s - fired ev \<and> owner s' = owner s \<and> childProcess s' = childProcess s) \<or>
      (childProcess s = None \<and>
       (\<exists>child. childProcess s' = Some child \<and> listeners s' = registered child \<and>
          owner s' = length (runs s)))) \<and>
     (\<not> assigns ev s \<longrightarrow> processResult s' = processResult s)"


definition pendingTerminal :: "ChildProcess \<Rightarrow> nat" where
  "pendingTerminal s = (if CloseL \<in> listeners s then 1 else 0) + (if ExitL \<in> listeners s then 1 else 0)"


text \<open>
  A state in which the promise of the first call of \<^verbatim>\<open>run\<close> is pending and nothing is left
  that could settle it.
\<close>

definition pending_forever :: "ChildProcess \<Rightarrow> bool" where
  "pending_forever s \<longleftrightarrow>
     0 < length (runs s) \<and> promise (runs s ! 0) = Pending \<and>
     \<not> rejects (rejectOnError (mergedOptions (runs s ! 0))) \<and>
     (listeners s = {} \<or> owner s \<noteq> 0)"

section \<open>More concrete inputs\<close>


definition stubborn_child :: "int \<Rightarrow> child_handle" where
  "stubborn_child p = \<lparr>handle_pid = Some p, handle_stdout = True, handle_stderr = True,
     handle_kill = (\<lambda>sg. if sg = Some SIGKILL then Some (Error (str ''kill EPERM'')) else None)\<rparr>"





section \<open>Lemmas\<close>

lemma error_path_refl: "error_path i s s"
  by (simp add: error_path_def)

lemma error_path_trans:
  assumes "error_path i a b" "error_path i b c"
  shows "error_path i a c"
proof -
  have r: "runs c = runs a \<or>
      (rejects (rejectOnError (mergedOptions (runs a ! i))) \<and> i < length (runs a) \<and>
       promise (runs a ! i) = Pending \<and>
       (\<exists>e. runs c = (runs a)[i := (runs a ! i)\<lparr>promise := Rejected e\<rparr>]))"
  proof (cases "runs b = runs a")
    case True
    then show ?thesis using assms(2) by (simp add: error_path_def)
  next
    case False
    then obtain e where b: "rejects (rejectOnError (mergedOptions (runs a ! i)))" "i < length (runs a)"
        "promise (runs a ! i) = Pending" "runs b = (runs a)[i := (runs a ! i)\<lparr>promise := Rejected e\<rparr>]"
      using assms(1) unfolding error_path_def by blast
    then have "promise (runs b ! i) \<noteq> Pending" by simp
    then have "runs c = runs b"
      using assms(2) unfolding error_path_def by blast
    then show ?thesis using b by auto
  qed
  have e: "\<exists>es. processErrors c = processErrors a @ es"
    using assms unfolding error_path_def by (metis append.assoc)
  have k: "\<exists>ks. kills c = kills a @ ks"
    using assms unfolding error_path_def by (metis append.assoc)
  have w: "\<exists>ws. waits c = waits a @ ws"
    using assms unfolding error_path_def by (metis append.assoc)
  have f: "childProcess c = childProcess a \<and> processResult c = processResult a \<and>
     listeners c = listeners a \<and> owner c = owner a \<and> log c = log a \<and> logged c = logged a \<and>
     command c = command a \<and> args c = args a \<and> options c = options a \<and> spawned c = spawned a"
    using assms unfolding error_path_def by simp
  show ?thesis
    unfolding error_path_def using r e k w f by blast
qed

lemma stop_runs: "stop f sg s = (t, s') \<Longrightarrow> runs s' = runs s"
  by (auto simp: stop_def Let_def split: option.splits if_splits)

lemma stop_error_path: "stop f sg s = (t, s') \<Longrightarrow> error_path i s s'"
  by (auto simp: stop_def Let_def error_path_def split: option.splits if_splits)

lemma settle_beyond: "\<not> i < length (runs s) \<Longrightarrow> settle i p s = s"
  by (simp add: settle_def list_update_beyond split: promise.splits)

lemma settle_reject_error_path:
  "rejects (rejectOnError (mergedOptions (runs s ! i))) \<Longrightarrow> error_path i s (settle i (Rejected e) s)"
proof (cases "i < length (runs s)")
  case True
  assume "rejects (rejectOnError (mergedOptions (runs s ! i)))"
  then show ?thesis
    using True by (auto simp: settle_def error_path_def split: promise.splits)
next
  case False
  then have "settle i (Rejected e) s = s"
    by (rule settle_beyond)
  then show ?thesis by (simp add: error_path_refl)
qed

lemma errorHandler_error_path:
  assumes "errorHandler i e f s = (t, s')"
  shows "error_path i s s'"
proof -
  let ?s1 = "s\<lparr>processErrors := processErrors s @ [e]\<rparr>"
  let ?f = "case f of None \<Rightarrow> useForceStop (mergedOptions (runs s ! i)) | Some b \<Rightarrow> Some b"
  have a: "error_path i s ?s1"
    by (simp add: error_path_def)
  obtain t2 s2 where st: "(if \<not> stopped ?s1 then stop ?f None ?s1 else (None, ?s1)) = (t2, s2)"
    by (metis surj_pair)
  have b: "error_path i ?s1 s2"
    using st by (auto split: if_splits dest: stop_error_path simp: error_path_refl)
  have rs: "runs s2 = runs s"
    using st by (auto split: if_splits dest: stop_runs)
  have eh: "(t, s') = (case (t2, s2) of
           (Some thrown, s2) \<Rightarrow> (Some thrown, s2)
         | (None, s2) \<Rightarrow>
             (case rejectOnError (mergedOptions (runs s ! i)) of
                Some (RejectOnErrorFn g) \<Rightarrow> (None, settle i (Rejected (g e)) s2)
              | Some (RejectOnErrorBool True) \<Rightarrow> (None, settle i (Rejected e) s2)
              | _ \<Rightarrow> (None, s2)))"
    using assms st unfolding errorHandler_def Let_def by simp
  have c: "error_path i s2 s'"
  proof (cases t2)
    case (Some thrown)
    then show ?thesis using eh by (simp add: error_path_refl)
  next
    case None
    show ?thesis
    proof (cases "rejects (rejectOnError (mergedOptions (runs s ! i)))")
      case True
      then have "\<exists>x. s' = settle i (Rejected x) s2"
        using eh None
        by (auto simp: rejects_def split: option.splits rejectOnError_t.splits bool.splits)
      then show ?thesis
        using True rs by (auto intro: settle_reject_error_path)
    next
      case False
      then have "s' = s2"
        using eh None
        by (auto simp: rejects_def split: option.splits rejectOnError_t.splits bool.splits)
      then show ?thesis by (simp add: error_path_refl)
    qed
  qed
  show ?thesis
    using error_path_trans[OF a error_path_trans[OF b c]] .
qed


lemma ctx_calls_error_path:
  "ctx_calls i cs s = (t, s') \<Longrightarrow> error_path i s s'"
proof (induction cs arbitrary: s)
  case Nil
  then show ?case by (simp add: error_path_refl)
next
  case (Cons c cs)
  obtain t1 s1 where h: "(case c of ReportError err \<Rightarrow> errorHandler i (case err of Inl msg \<Rightarrow> Error msg | Inr e \<Rightarrow> e) None s
            | CtxStop force sg \<Rightarrow> stop force sg s) = (t1, s1)"
    by (metis surj_pair)
  have a: "error_path i s s1"
    using h by (cases c) (simp_all add: errorHandler_error_path stop_error_path)
  show ?case
  proof (cases t1)
    case None
    then have "ctx_calls i cs s1 = (t, s')"
      using Cons.prems h by simp
    then have "error_path i s1 s'"
      using Cons.IH by blast
    with a show ?thesis by (rule error_path_trans)
  next
    case (Some thrown)
    then have "s' = s1" using Cons.prems h by simp
    then show ?thesis using a by simp
  qed
qed

lemma wait_step_refl: "wait_step w w"
  by (simp add: wait_step_def)

lemma wait_step_trans: "wait_step a b \<Longrightarrow> wait_step b c \<Longrightarrow> wait_step a c"
  by (auto simp: wait_step_def)

lemma evolves_refl: "evolves s s"
  by (simp add: evolves_def wait_step_refl)

lemma evolves_trans:
  assumes "evolves a b" "evolves b c"
  shows "evolves a c"
proof -
  have w: "\<forall>k < length (waits a). wait_step (waits a ! k) (waits c ! k)"
  proof (intro allI impI)
    fix k assume k: "k < length (waits a)"
    then have "wait_step (waits a ! k) (waits b ! k)" "wait_step (waits b ! k) (waits c ! k)"
      using assms by (simp_all add: evolves_def)
    then show "wait_step (waits a ! k) (waits c ! k)"
      by (rule wait_step_trans)
  qed
  have r: "\<forall>j < length (runs a). mergedOptions (runs c ! j) = mergedOptions (runs a ! j)"
    using assms by (simp add: evolves_def)
  have e: "\<exists>es. processErrors c = processErrors a @ es"
    using assms by (auto simp: evolves_def)
  show ?thesis
    using assms w r e unfolding evolves_def by simp
qed

lemma error_path_evolves:
  assumes "error_path i s s'"
  shows "evolves s s'"
proof -
  have w: "\<exists>ws. waits s' = waits s @ ws"
    using assms unfolding error_path_def by blast
  then have w1: "length (waits s) \<le> length (waits s')"
    by auto
  have w2: "\<forall>k < length (waits s). wait_step (waits s ! k) (waits s' ! k)"
    using w by (auto simp: nth_append wait_step_def)
  have r: "length (runs s) \<le> length (runs s') \<and>
     (\<forall>j < length (runs s). mergedOptions (runs s' ! j) = mergedOptions (runs s ! j))"
  proof (cases "runs s' = runs s")
    case True
    then show ?thesis by simp
  next
    case False
    then obtain e where "i < length (runs s)" "runs s' = (runs s)[i := (runs s ! i)\<lparr>promise := Rejected e\<rparr>]"
      using assms unfolding error_path_def by blast
    then show ?thesis by (simp add: nth_list_update)
  qed
  have f: "childProcess s' = childProcess s \<and> processResult s' = processResult s \<and>
     log s' = log s \<and> command s' = command s \<and> args s' = args s \<and> options s' = options s \<and>
     (\<exists>es. processErrors s' = processErrors s @ es)"
    using assms unfolding error_path_def by blast
  show ?thesis
    unfolding evolves_def using w1 w2 r f by simp
qed

lemma settle_evolves: "evolves s (settle i p s)"
  by (cases "i < length (runs s)")
     (simp_all add: settle_def evolves_def wait_step_refl nth_list_update split: promise.splits)

lemma log_line_evolves: "evolves s (log_line lv m s)"
  by (simp add: log_line_def evolves_def wait_step_refl split: logger.splits)

lemma closeHandler_evolves: "evolves s (closeHandler i code sg s)"
proof -
  have "evolves s (s\<lparr>processResult := Some (makeResult code sg s)\<rparr>)"
    by (simp add: evolves_def wait_step_refl)
  then show ?thesis
    unfolding closeHandler_def Let_def by (rule evolves_trans) (rule settle_evolves)
qed

lemma exitHandler_evolves: "evolves s (exitHandler i code sg s)"
proof -
  define r where "r = makeResult (case code of Val n \<Rightarrow> Val n | _ \<Rightarrow> Val (- 1))
                         (case sg of Val x \<Rightarrow> Val x | _ \<Rightarrow> Undefined) s"
  define s1 where "s1 = s\<lparr>processResult := Some r\<rparr>"
  define s2 where "s2 = (case code of
                  Val n \<Rightarrow>
                    if n \<noteq> 0 then
                      (case rejectOnExit (mergedOptions (runs s ! i)) of
                         Some (RejectOnExitFn g) \<Rightarrow> settle i (Rejected (g n)) s1
                       | Some (RejectOnExitBool True) \<Rightarrow> settle i (Rejected (nonzero_exit n)) s1
                       | _ \<Rightarrow> s1)
                    else s1
                | _ \<Rightarrow> s1)"
  have a: "evolves s s1"
    by (simp add: s1_def evolves_def wait_step_refl)
  have b: "evolves s1 s2"
    by (simp add: s2_def evolves_refl settle_evolves
        split: jsval.splits option.splits rejectOnExit_t.splits bool.splits)
  have c: "evolves s2 (if waitForStreams (mergedOptions (runs s ! i)) = Some False then settle i (Resolved r) s2 else s2)"
    by (simp add: evolves_refl settle_evolves)
  have "exitHandler i code sg s = (if waitForStreams (mergedOptions (runs s ! i)) = Some False then settle i (Resolved r) s2 else s2)"
    unfolding exitHandler_def Let_def r_def s1_def s2_def by (rule refl)
  then show ?thesis
    using evolves_trans[OF a evolves_trans[OF b c]] by simp
qed

lemma waitSettled_evolves: "k < length (waits s) \<Longrightarrow> evolves s (waitSettled k polled s)"
  by (simp add: waitSettled_def Let_def evolves_def log_line_def wait_step_def nth_list_update
      split: option.splits logger.splits)

lemma stdoutData_evolves:
  assumes "stdoutData i text s = (t, s')"
  shows "evolves s s'"
proof -
  define s1 where "s1 = (if collect (mergedOptions (runs s ! i)) = Some True then s\<lparr>stdoutChunks := stdoutChunks s @ [text]\<rparr> else s)"
  have a: "evolves s s1"
    by (simp add: s1_def evolves_def wait_step_refl)
  have d: "(case onStdout (mergedOptions (runs s ! i)) of None \<Rightarrow> (None, s1) | Some cb \<Rightarrow> ctx_calls i (cb text) s1) = (t, s')"
    using assms unfolding stdoutData_def Let_def s1_def by simp
  have "evolves s1 s'"
  proof (cases "onStdout (mergedOptions (runs s ! i))")
    case None
    then show ?thesis using d by (simp add: evolves_refl)
  next
    case (Some cb)
    then have "ctx_calls i (cb text) s1 = (t, s')" using d by simp
    then have "error_path i s1 s'"
      by (rule ctx_calls_error_path)
    then show ?thesis by (rule error_path_evolves)
  qed
  with a show ?thesis by (rule evolves_trans)
qed

lemma stderrData_evolves:
  assumes "stderrData i text s = (t, s')"
  shows "evolves s s'"
proof -
  define s1 where "s1 = (if collect (mergedOptions (runs s ! i)) = Some True then s\<lparr>stderrChunks := stderrChunks s @ [text]\<rparr> else s)"
  have a: "evolves s s1"
    by (simp add: s1_def evolves_def wait_step_refl)
  have d: "(case onStderr (mergedOptions (runs s ! i)) of None \<Rightarrow> (None, s1) | Some cb \<Rightarrow> ctx_calls i (cb text) s1) = (t, s')"
    using assms unfolding stderrData_def Let_def s1_def by simp
  have "evolves s1 s'"
  proof (cases "onStderr (mergedOptions (runs s ! i))")
    case None
    then show ?thesis using d by (simp add: evolves_refl)
  next
    case (Some cb)
    then have "ctx_calls i (cb text) s1 = (t, s')" using d by simp
    then have "error_path i s1 s'"
      by (rule ctx_calls_error_path)
    then show ?thesis by (rule error_path_evolves)
  qed
  with a show ?thesis by (rule evolves_trans)
qed

lemma attach_timeout_evolves: "attach_timeout i s = Inr s1 \<Longrightarrow> evolves s s1 \<and> childProcess s1 = childProcess s"
  by (cases "i < length (runs s)")
     (auto simp: attach_timeout_def evolves_def wait_step_refl nth_list_update list_update_beyond
        split: option.splits if_splits)

lemma try_spawn_evolves:
  assumes "try_spawn i argv sp s = (t, s')" "childProcess s = None"
  shows "evolves s s'"
proof -
  define s1 where "s1 = s\<lparr>spawned := spawned s @ [(command s, argv, orEmpty (spawnOptions (mergedOptions (runs s ! i))))]\<rparr>"
  have a: "evolves s s1"
    by (simp add: s1_def evolves_def wait_step_refl)
  have d: "(case sp of SpawnThrows err \<Rightarrow> errorHandler i err None s1
         | SpawnReturns child \<Rightarrow>
             (None, s1\<lparr>childProcess := Some child, owner := i, listeners := registered child\<rparr>)) = (t, s')"
    using assms(1) unfolding try_spawn_def Let_def s1_def by simp
  have "evolves s1 s'"
  proof (cases sp)
    case (SpawnThrows err)
    then have "errorHandler i err None s1 = (t, s')" using d by simp
    then show ?thesis
      by (blast intro: error_path_evolves errorHandler_error_path)
  next
    case (SpawnReturns child)
    then have "s' = s1\<lparr>childProcess := Some child, owner := i, listeners := registered child\<rparr>"
      using d by simp
    then show ?thesis
      using assms(2) by (simp add: s1_def evolves_def wait_step_refl)
  qed
  with a show ?thesis by (rule evolves_trans)
qed

lemma executor_evolves:
  assumes "childProcess s = None"
  shows "evolves s (executor i argv sp s)"
proof (cases "attach_timeout i s")
  case (Inl thrown)
  then show ?thesis by (simp add: executor_def settle_evolves)
next
  case (Inr s1)
  then have a: "evolves s s1" and c: "childProcess s1 = None"
    using attach_timeout_evolves[OF Inr] assms by simp_all
  obtain t s2 where ts: "try_spawn i argv sp s1 = (t, s2)"
    by (metis surj_pair)
  have b: "evolves s1 s2"
    using ts c by (rule try_spawn_evolves)
  have "evolves s2 (executor i argv sp s)"
    using Inr ts by (cases t) (simp_all add: executor_def evolves_refl settle_evolves)
  then show ?thesis
    using evolves_trans[OF a evolves_trans[OF b]] by simp
qed

lemma run_evolves: "evolves s (snd (run params sp s))"
proof (cases "childProcess s")
  case (Some child)
  then show ?thesis by (simp add: run_def evolves_refl)
next
  case None
  define s1 where "s1 = log_line Info (str ''Running: '' @ toString s) s"
  define s2 where "s2 = s1\<lparr>runs := runs s1 @
                   [\<lparr>mergedOptions = withDefaults (mergeOptions (options s1) params), promise = Pending,
                     timerArmed = False, finallyRan = False\<rparr>]\<rparr>"
  have a: "evolves s s1"
    unfolding s1_def by (rule log_line_evolves)
  have b: "evolves s1 s2"
    by (simp add: s2_def evolves_def wait_step_refl nth_append)
  have c0: "childProcess s2 = None"
    using None by (simp add: s2_def s1_def log_line_def split: logger.splits)
  have c: "evolves s2 (executor (length (runs s1)) (args s1 @ (case extraArgs (mergeOptions (options s1) params) of None \<Rightarrow> [] | Some xs \<Rightarrow> xs)) sp s2)"
    using c0 by (rule executor_evolves)
  have "snd (run params sp s) = executor (length (runs s1)) (args s1 @ (case extraArgs (mergeOptions (options s1) params) of None \<Rightarrow> [] | Some xs \<Rightarrow> xs)) sp s2"
    using None unfolding run_def Let_def s1_def s2_def by simp
  then show ?thesis
    using evolves_trans[OF a evolves_trans[OF b c]] by simp
qed

lemma step_evolves: "evolves s (snd (step ev s))"
proof (cases ev)
  case (CallRun params sp)
  then show ?thesis by (simp add: run_evolves)
next
  case (CallStop force sg)
  then show ?thesis
    by (metis step.simps(2) stop_error_path error_path_evolves prod.collapse)
next
  case (ChildError err)
  then show ?thesis
    by (cases "errorHandler (owner s) err None s")
       (auto simp: evolves_refl dest!: errorHandler_error_path error_path_evolves)
next
  case (StdoutError err)
  then show ?thesis
    by (cases "errorHandler (owner s) err None s")
       (auto simp: evolves_refl dest!: errorHandler_error_path error_path_evolves)
next
  case (StderrError err)
  then show ?thesis
    by (cases "errorHandler (owner s) err None s")
       (auto simp: evolves_refl dest!: errorHandler_error_path error_path_evolves)
next
  case (StdoutData chunk)
  then show ?thesis
    by (cases "stdoutData (owner s) chunk s") (auto simp: evolves_refl dest!: stdoutData_evolves)
next
  case (StderrData chunk)
  then show ?thesis
    by (cases "stderrData (owner s) chunk s") (auto simp: evolves_refl dest!: stderrData_evolves)
next
  case (Close code sg)
  have "evolves s (s\<lparr>listeners := listeners s - {CloseL}\<rparr>)"
    by (simp add: evolves_def wait_step_refl)
  then have "evolves s (closeHandler (owner s) code sg (s\<lparr>listeners := listeners s - {CloseL}\<rparr>))"
    by (rule evolves_trans) (rule closeHandler_evolves)
  then show ?thesis using Close by (simp add: evolves_refl)
next
  case (Exit code sg)
  have "evolves s (s\<lparr>listeners := listeners s - {ExitL}\<rparr>)"
    by (simp add: evolves_def wait_step_refl)
  then have "evolves s (exitHandler (owner s) code sg (s\<lparr>listeners := listeners s - {ExitL}\<rparr>))"
    by (rule evolves_trans) (rule exitHandler_evolves)
  then show ?thesis using Exit by (simp add: evolves_refl)
next
  case (TimerRejected i err)
  define s1 where "s1 = s\<lparr>runs := (runs s)[i := (runs s ! i)\<lparr>timerArmed := False\<rparr>]\<rparr>"
  have a: "evolves s s1"
    by (cases "i < length (runs s)")
       (simp_all add: s1_def evolves_def wait_step_refl nth_list_update list_update_beyond)
  obtain t s2 where e: "errorHandler i err (Some True) s1 = (t, s2)"
    by (metis surj_pair)
  then have "evolves s1 s2"
    by (blast intro: error_path_evolves errorHandler_error_path)
  with a have "evolves s s2" by (rule evolves_trans)
  then show ?thesis
    using TimerRejected e by (simp add: evolves_refl s1_def)
next
  case (WaitUntilSettled k polled)
  then show ?thesis by (simp add: evolves_refl waitSettled_evolves)
next
  case (Finally i)
  have "evolves s (cleanup (s\<lparr>runs := (runs s)[i := (runs s ! i)\<lparr>finallyRan := True\<rparr>]\<rparr>))"
    by (cases "i < length (runs s)")
       (simp_all add: cleanup_def evolves_def wait_step_refl nth_list_update list_update_beyond)
  then show ?thesis using Finally by (simp add: evolves_refl)
qed

lemma exec_evolves: "evolves s (exec evs s)"
proof (induction evs arbitrary: s)
  case Nil
  show ?case by (simp add: evolves_refl)
next
  case (Cons ev evs)
  have "evolves s (snd (step ev s))" by (rule step_evolves)
  then show ?case
    using Cons.IH by (simp add: evolves_trans)
qed

lemmas eval_defs = firstError_def noOptions_def noParams_def piped_child_def echo_def new_ChildProcess_def run_def
  executor_def attach_timeout_def try_spawn_def
  mergeOptions_def withDefaults_def over_def orEmpty_def log_line_def toString_def pid_def
  registered_def stdoutData_def stderrData_def closeHandler_def exitHandler_def makeResult_def settle_def
  join_default_def trim_def isWhiteSpace_def str_def Let_def errorHandler_def stop_def stopped_def
  cleanup_def result_def waitSettled_def

lemma stop_live:
  assumes "childProcess s = Some child" "processResult s = None" "handle_kill child sg = None"
  shows "stop force sg s =
     (None, if force = Some True then s\<lparr>kills := kills s @ [sg], waits := waits s @ [forced_wait s]\<rparr>
            else s\<lparr>kills := kills s @ [sg]\<rparr>)"
  using assms by (simp add: stop_def stopped_def Let_def forced_wait_def pid_def)

lemma closure_evolves_refl: "closure_evolves own L fe c c"
  by (simp add: closure_evolves_def)

lemma closure_evolves_same:
  "mergedOptions c' = mergedOptions c \<Longrightarrow> promise c' = promise c \<Longrightarrow> closure_evolves own L fe c c'"
  by (simp add: closure_evolves_def)

lemma closure_evolves_trans_same:
  "mergedOptions c0 = mergedOptions c \<Longrightarrow> promise c0 = promise c \<Longrightarrow> closure_evolves own L fe c0 c'
   \<Longrightarrow> closure_evolves own L fe c c'"
  by (simp add: closure_evolves_def)

lemma settle_nth:
  "runs (settle i p s) ! j =
     (if j = i \<and> i < length (runs s) \<and> promise (runs s ! i) = Pending
      then (runs s ! i)\<lparr>promise := p\<rparr> else runs s ! j)"
  by (cases "i < length (runs s)")
     (auto simp: settle_def nth_list_update list_update_beyond split: promise.splits)

lemma settle_length: "length (runs (settle i p s)) = length (runs s)"
  by (simp add: settle_def split: promise.splits)

lemma error_path_closure:
  assumes "error_path i s s'" "j < length (runs s)"
  shows "closure_evolves own L fe (runs s ! j) (runs s' ! j)"
proof (cases "runs s' = runs s")
  case True
  then show ?thesis by (simp add: closure_evolves_refl)
next
  case False
  then obtain e where h: "rejects (rejectOnError (mergedOptions (runs s ! i)))" "i < length (runs s)"
       "promise (runs s ! i) = Pending" "runs s' = (runs s)[i := (runs s ! i)\<lparr>promise := Rejected e\<rparr>]"
    using assms(1) unfolding error_path_def by blast
  show ?thesis
  proof (cases "j = i")
    case True
    then show ?thesis using h by (simp add: closure_evolves_def)
  next
    case False
    then show ?thesis using h by (simp add: closure_evolves_refl)
  qed
qed

lemma error_path_length: "error_path i s s' \<Longrightarrow> length (runs s') = length (runs s)"
  unfolding error_path_def by auto

lemma makeResult_error: "error (makeResult code sg s) = firstError s"
  by (simp add: makeResult_def)

lemma closeHandler_closure:
  assumes "j < length (runs s)" "CloseL \<in> L"
  shows "closure_evolves (j = i) L (firstError s) (runs s ! j) (runs (closeHandler i code sg s) ! j)"
  using assms
  by (simp add: closeHandler_def Let_def settle_nth closure_evolves_def makeResult_error)

lemma exitHandler_closure:
  assumes "j < length (runs s)" "ExitL \<in> L"
  shows "closure_evolves (j = i) L (firstError s) (runs s ! j) (runs (exitHandler i code sg s) ! j)"
proof -
  define r where "r = makeResult (case code of Val n \<Rightarrow> Val n | _ \<Rightarrow> Val (- 1))
                         (case sg of Val x \<Rightarrow> Val x | _ \<Rightarrow> Undefined) s"
  define s1 where "s1 = s\<lparr>processResult := Some r\<rparr>"
  define s2 where "s2 = (case code of
                  Val n \<Rightarrow>
                    if n \<noteq> 0 then
                      (case rejectOnExit (mergedOptions (runs s ! i)) of
                         Some (RejectOnExitFn g) \<Rightarrow> settle i (Rejected (g n)) s1
                       | Some (RejectOnExitBool True) \<Rightarrow> settle i (Rejected (nonzero_exit n)) s1
                       | _ \<Rightarrow> s1)
                    else s1
                | _ \<Rightarrow> s1)"
  have eq: "exitHandler i code sg s = (if waitForStreams (mergedOptions (runs s ! i)) = Some False then settle i (Resolved r) s2 else s2)"
    unfolding exitHandler_def Let_def r_def s1_def s2_def by (rule refl)
  have r1: "runs s1 = runs s" by (simp add: s1_def)
  have "s2 = s1 \<or> (\<exists>x. s2 = settle i (Rejected x) s1)"
    unfolding s2_def by (auto split: jsval.splits option.splits rejectOnExit_t.splits bool.splits)
  then have a: "closure_evolves (j = i) L (firstError s) (runs s ! j) (runs s2 ! j)"
      and l2: "length (runs s2) = length (runs s)"
    using assms r1 by (auto simp: settle_nth settle_length closure_evolves_def split: if_splits)
  have er: "error r = firstError s"
    by (simp add: r_def makeResult_error)
  show ?thesis
  proof (cases "waitForStreams (mergedOptions (runs s ! i)) = Some False")
    case False
    then show ?thesis using eq a by simp
  next
    case True
    then have e2: "exitHandler i code sg s = settle i (Resolved r) s2" using eq by simp
    show ?thesis
    proof (cases "j = i \<and> promise (runs s2 ! i) = Pending")
      case False
      then have "runs (settle i (Resolved r) s2) ! j = runs s2 ! j"
        by (auto simp: settle_nth)
      then show ?thesis using e2 a by simp
    next
      case True
      then have p: "promise (runs s ! j) = Pending" "mergedOptions (runs s2 ! j) = mergedOptions (runs s ! j)"
        using a by (auto simp: closure_evolves_def)
      have "runs (settle i (Resolved r) s2) ! j = (runs s2 ! j)\<lparr>promise := Resolved r\<rparr>"
        using True l2 assms(1) by (simp add: settle_nth)
      then show ?thesis
        using e2 p er True assms(2) by (simp add: closure_evolves_def)
    qed
  qed
qed

lemma spawn_path_refl: "spawn_path i s s"
  by (simp add: spawn_path_def)

lemma spawn_path_trans:
  assumes "spawn_path i a b" "spawn_path i b c"
  shows "spawn_path i a c"
proof -
  have p: "promise (runs c ! i) = promise (runs a ! i) \<or>
      (promise (runs a ! i) = Pending \<and> (\<exists>e. promise (runs c ! i) = Rejected e))"
    using assms unfolding spawn_path_def by auto
  have l: "(childProcess c = childProcess a \<and> listeners c = listeners a \<and> owner c = owner a) \<or>
      (\<exists>child. childProcess c = Some child \<and> listeners c = registered child \<and> owner c = i)"
    using assms unfolding spawn_path_def by auto
  have r: "processResult c = processResult a \<and> length (runs c) = length (runs a) \<and>
     (\<forall>j. j \<noteq> i \<longrightarrow> runs c ! j = runs a ! j)"
    using assms unfolding spawn_path_def by simp
  show ?thesis
    unfolding spawn_path_def using p l r by blast
qed

lemma error_path_spawn_path:
  assumes "error_path i s s'"
  shows "spawn_path i s s'"
proof -
  have f: "processResult s' = processResult s" "childProcess s' = childProcess s"
     "listeners s' = listeners s" "owner s' = owner s"
    using assms unfolding error_path_def by simp_all
  have r: "length (runs s') = length (runs s) \<and> (\<forall>j. j \<noteq> i \<longrightarrow> runs s' ! j = runs s ! j) \<and>
     (promise (runs s' ! i) = promise (runs s ! i) \<or>
      (promise (runs s ! i) = Pending \<and> (\<exists>e. promise (runs s' ! i) = Rejected e)))"
  proof (cases "runs s' = runs s")
    case True
    then show ?thesis by simp
  next
    case False
    then obtain e where "i < length (runs s)" "promise (runs s ! i) = Pending"
        "runs s' = (runs s)[i := (runs s ! i)\<lparr>promise := Rejected e\<rparr>]"
      using assms unfolding error_path_def by blast
    then show ?thesis by simp
  qed
  show ?thesis
    unfolding spawn_path_def using f r by simp
qed

lemma settle_reject_spawn_path: "spawn_path i s (settle i (Rejected e) s)"
proof (cases "i < length (runs s)")
  case True
  then show ?thesis
    unfolding spawn_path_def by (simp add: settle_def split: promise.splits)
next
  case False
  then show ?thesis by (simp add: settle_beyond spawn_path_refl)
qed

lemma attach_timeout_spawn_path: "attach_timeout i s = Inr s1 \<Longrightarrow> spawn_path i s s1"
  by (cases "i < length (runs s)")
     (auto simp: attach_timeout_def spawn_path_def list_update_beyond split: option.splits if_splits)

lemma try_spawn_spawn_path:
  assumes "try_spawn i argv sp s = (t, s')"
  shows "spawn_path i s s'"
proof -
  define s1 where "s1 = s\<lparr>spawned := spawned s @ [(command s, argv, orEmpty (spawnOptions (mergedOptions (runs s ! i))))]\<rparr>"
  have a: "spawn_path i s s1"
    by (simp add: s1_def spawn_path_def)
  have d: "(case sp of SpawnThrows err \<Rightarrow> errorHandler i err None s1
         | SpawnReturns child \<Rightarrow>
             (None, s1\<lparr>childProcess := Some child, owner := i, listeners := registered child\<rparr>)) = (t, s')"
    using assms(1) unfolding try_spawn_def Let_def s1_def by simp
  have "spawn_path i s1 s'"
  proof (cases sp)
    case (SpawnThrows err)
    then have "errorHandler i err None s1 = (t, s')" using d by simp
    then show ?thesis
      by (blast intro: error_path_spawn_path errorHandler_error_path)
  next
    case (SpawnReturns child)
    then have "s' = s1\<lparr>childProcess := Some child, owner := i, listeners := registered child\<rparr>"
      using d by simp
    then show ?thesis
      by (simp add: spawn_path_def)
  qed
  with a show ?thesis by (rule spawn_path_trans)
qed

lemma executor_spawn_path: "spawn_path i s (executor i argv sp s)"
proof (cases "attach_timeout i s")
  case (Inl thrown)
  then show ?thesis by (simp add: executor_def settle_reject_spawn_path)
next
  case (Inr s1)
  then have a: "spawn_path i s s1"
    by (rule attach_timeout_spawn_path)
  obtain t s2 where ts: "try_spawn i argv sp s1 = (t, s2)"
    by (metis surj_pair)
  have b: "spawn_path i s1 s2"
    using ts by (rule try_spawn_spawn_path)
  have "spawn_path i s2 (executor i argv sp s)"
    using Inr ts by (cases t) (simp_all add: executor_def spawn_path_refl settle_reject_spawn_path)
  then show ?thesis
    using spawn_path_trans[OF a spawn_path_trans[OF b]] by simp
qed

lemma run_spawn_path:
  assumes "childProcess s = None"
  shows "\<exists>c s2. promise c = Pending \<and> runs s2 = runs s @ [c] \<and> processResult s2 = processResult s \<and>
           childProcess s2 = None \<and> listeners s2 = listeners s \<and> owner s2 = owner s \<and>
           spawn_path (length (runs s)) s2 (snd (run params sp s))"
proof -
  define s1 where "s1 = log_line Info (str ''Running: '' @ toString s) s"
  define c where "c = \<lparr>mergedOptions = withDefaults (mergeOptions (options s1) params), promise = Pending,
                     timerArmed = False, finallyRan = False\<rparr>"
  define s2 where "s2 = s1\<lparr>runs := runs s1 @ [c]\<rparr>"
  have f1: "runs s1 = runs s" "processResult s1 = processResult s" "childProcess s1 = childProcess s"
      "listeners s1 = listeners s" "owner s1 = owner s"
    by (simp_all add: s1_def log_line_def split: logger.splits)
  have r: "snd (run params sp s) = executor (length (runs s1)) (args s1 @ (case extraArgs (mergeOptions (options s1) params) of None \<Rightarrow> [] | Some xs \<Rightarrow> xs)) sp s2"
    using assms unfolding run_def Let_def s1_def s2_def c_def by simp
  have "spawn_path (length (runs s)) s2 (snd (run params sp s))"
    unfolding r using f1(1) by (simp add: executor_spawn_path)
  moreover have "promise c = Pending" by (simp add: c_def)
  moreover have "runs s2 = runs s @ [c]" "processResult s2 = processResult s" "childProcess s2 = None"
       "listeners s2 = listeners s" "owner s2 = owner s"
    using f1 assms by (simp_all add: s2_def)
  ultimately show ?thesis by blast
qed

lemma step_okI:
  assumes "\<forall>j < length (runs s).
        closure_evolves (j = owner s) (listeners s) (firstError s) (runs s ! j) (runs s' ! j)"
    and "length (runs s') = length (runs s)"
    and "listeners s' \<subseteq> listeners s - fired ev" "owner s' = owner s" "childProcess s' = childProcess s"
    and "assigns ev s \<or> processResult s' = processResult s"
  shows "step_ok ev s s'"
  unfolding step_ok_def using assms by auto

lemma step_ok_same: "fired ev \<inter> listeners s = {} \<Longrightarrow> step_ok ev s s"
  unfolding step_ok_def by (auto simp: closure_evolves_refl)

lemma step_ok_error_path:
  assumes "error_path i s s'" "fired ev = {}"
  shows "step_ok ev s s'"
proof -
  have c: "\<forall>j < length (runs s).
        closure_evolves (j = owner s) (listeners s) (firstError s) (runs s ! j) (runs s' ! j)"
    using assms(1) by (simp add: error_path_closure)
  have l: "length (runs s') = length (runs s)"
    using assms(1) by (rule error_path_length)
  have f: "listeners s' = listeners s" "owner s' = owner s" "childProcess s' = childProcess s"
     "processResult s' = processResult s"
    using assms(1) unfolding error_path_def by simp_all
  show ?thesis
    using c l f assms(2) by (intro step_okI) simp_all
qed

lemma stdoutData_error_path:
  assumes "stdoutData i chunk s = (t, s')"
  shows "error_path i s s'"
proof -
  define s1 where "s1 = (if collect (mergedOptions (runs s ! i)) = Some True then s\<lparr>stdoutChunks := stdoutChunks s @ [chunk]\<rparr> else s)"
  have a: "error_path i s s1"
    by (simp add: s1_def error_path_def)
  have d: "(case onStdout (mergedOptions (runs s ! i)) of None \<Rightarrow> (None, s1) | Some cb \<Rightarrow> ctx_calls i (cb chunk) s1) = (t, s')"
    using assms unfolding stdoutData_def Let_def s1_def by simp
  have "error_path i s1 s'"
  proof (cases "onStdout (mergedOptions (runs s ! i))")
    case None
    then show ?thesis using d by (simp add: error_path_refl)
  next
    case (Some cb)
    then have "ctx_calls i (cb chunk) s1 = (t, s')" using d by simp
    then show ?thesis by (rule ctx_calls_error_path)
  qed
  with a show ?thesis by (rule error_path_trans)
qed

lemma stderrData_error_path:
  assumes "stderrData i chunk s = (t, s')"
  shows "error_path i s s'"
proof -
  define s1 where "s1 = (if collect (mergedOptions (runs s ! i)) = Some True then s\<lparr>stderrChunks := stderrChunks s @ [chunk]\<rparr> else s)"
  have a: "error_path i s s1"
    by (simp add: s1_def error_path_def)
  have d: "(case onStderr (mergedOptions (runs s ! i)) of None \<Rightarrow> (None, s1) | Some cb \<Rightarrow> ctx_calls i (cb chunk) s1) = (t, s')"
    using assms unfolding stderrData_def Let_def s1_def by simp
  have "error_path i s1 s'"
  proof (cases "onStderr (mergedOptions (runs s ! i))")
    case None
    then show ?thesis using d by (simp add: error_path_refl)
  next
    case (Some cb)
    then have "ctx_calls i (cb chunk) s1 = (t, s')" using d by simp
    then show ?thesis by (rule ctx_calls_error_path)
  qed
  with a show ?thesis by (rule error_path_trans)
qed

lemma step_ok_run: "step_ok (CallRun params sp) s (snd (run params sp s))"
proof (cases "childProcess s")
  case (Some child)
  then show ?thesis by (simp add: run_def step_ok_same fired_def)
next
  case None
  let ?s' = "snd (run params sp s)"
  let ?n = "length (runs s)"
  obtain c s2 where h: "promise c = Pending" "runs s2 = runs s @ [c]" "processResult s2 = processResult s"
           "childProcess s2 = None" "listeners s2 = listeners s" "owner s2 = owner s"
           "spawn_path ?n s2 ?s'"
    using run_spawn_path[OF None] by blast
  have len: "length (runs ?s') = Suc ?n"
    using h(2,7) by (simp add: spawn_path_def)
  have old: "\<forall>j < ?n. runs ?s' ! j = runs s ! j"
    using h(2,7) by (simp add: spawn_path_def nth_append)
  have new: "promise (runs ?s' ! ?n) = Pending \<or> (\<exists>e. promise (runs ?s' ! ?n) = Rejected e)"
    using h(1,2,7) by (auto simp: spawn_path_def)
  have new': "\<forall>j. ?n \<le> j \<and> j < length (runs ?s') \<longrightarrow>
        promise (runs ?s' ! j) = Pending \<or> (\<exists>e. promise (runs ?s' ! j) = Rejected e)"
  proof (intro allI impI)
    fix j assume "?n \<le> j \<and> j < length (runs ?s')"
    then have "j = ?n" using len by simp
    then show "promise (runs ?s' ! j) = Pending \<or> (\<exists>e. promise (runs ?s' ! j) = Rejected e)"
      using new by simp
  qed
  have l: "(listeners ?s' \<subseteq> listeners s - fired (CallRun params sp) \<and> owner ?s' = owner s \<and> childProcess ?s' = childProcess s) \<or>
      (childProcess s = None \<and>
       (\<exists>child. childProcess ?s' = Some child \<and> listeners ?s' = registered child \<and> owner ?s' = ?n))"
    using h(4,5,6,7) None by (auto simp: spawn_path_def fired_def)
  have p: "processResult ?s' = processResult s"
    using h(3,7) by (simp add: spawn_path_def)
  show ?thesis
    unfolding step_ok_def using old new' len l p by (simp add: closure_evolves_refl)
qed

lemma step_ok_step: "step_ok ev s (snd (step ev s))"
proof (cases ev)
  case (CallRun params sp)
  then show ?thesis by (simp add: step_ok_run)
next
  case (CallStop force sg)
  obtain t s' where h: "stop force sg s = (t, s')" by (metis surj_pair)
  then have "error_path 0 s s'" by (rule stop_error_path)
  then show ?thesis using CallStop h by (simp add: step_ok_error_path fired_def)
next
  case (ChildError err)
  obtain t s' where h: "errorHandler (owner s) err None s = (t, s')" by (metis surj_pair)
  then have "error_path (owner s) s s'" by (rule errorHandler_error_path)
  then show ?thesis using ChildError h by (simp add: step_ok_error_path step_ok_same fired_def)
next
  case (StdoutError err)
  obtain t s' where h: "errorHandler (owner s) err None s = (t, s')" by (metis surj_pair)
  then have "error_path (owner s) s s'" by (rule errorHandler_error_path)
  then show ?thesis using StdoutError h by (simp add: step_ok_error_path step_ok_same fired_def)
next
  case (StderrError err)
  obtain t s' where h: "errorHandler (owner s) err None s = (t, s')" by (metis surj_pair)
  then have "error_path (owner s) s s'" by (rule errorHandler_error_path)
  then show ?thesis using StderrError h by (simp add: step_ok_error_path step_ok_same fired_def)
next
  case (StdoutData chunk)
  obtain t s' where h: "stdoutData (owner s) chunk s = (t, s')" by (metis surj_pair)
  then have "error_path (owner s) s s'" by (rule stdoutData_error_path)
  then show ?thesis using StdoutData h by (simp add: step_ok_error_path step_ok_same fired_def)
next
  case (StderrData chunk)
  obtain t s' where h: "stderrData (owner s) chunk s = (t, s')" by (metis surj_pair)
  then have "error_path (owner s) s s'" by (rule stderrData_error_path)
  then show ?thesis using StderrData h by (simp add: step_ok_error_path step_ok_same fired_def)
next
  case (Close code sg)
  show ?thesis
  proof (cases "CloseL \<in> listeners s")
    case False
    then show ?thesis using Close by (simp add: step_ok_same fired_def)
  next
    case True
    let ?sl = "s\<lparr>listeners := listeners s - {CloseL}\<rparr>"
    let ?s' = "closeHandler (owner s) code sg ?sl"
    have c: "\<forall>j < length (runs s).
        closure_evolves (j = owner s) (listeners s) (firstError s) (runs s ! j) (runs ?s' ! j)"
      using closeHandler_closure[of _ ?sl "listeners s" "owner s" code sg] True
      by (simp add: firstError_def)
    have f: "length (runs ?s') = length (runs s)" "listeners ?s' = listeners s - {CloseL}"
        "owner ?s' = owner s" "childProcess ?s' = childProcess s"
      by (simp_all add: closeHandler_def Let_def settle_def split: promise.splits)
    have "step_ok ev s ?s'"
      using c f True Close by (intro step_okI) (simp_all add: fired_def assigns_def)
    then show ?thesis using Close True by simp
  qed
next
  case (Exit code sg)
  show ?thesis
  proof (cases "ExitL \<in> listeners s")
    case False
    then show ?thesis using Exit by (simp add: step_ok_same fired_def)
  next
    case True
    let ?sl = "s\<lparr>listeners := listeners s - {ExitL}\<rparr>"
    let ?s' = "exitHandler (owner s) code sg ?sl"
    have c: "\<forall>j < length (runs s).
        closure_evolves (j = owner s) (listeners s) (firstError s) (runs s ! j) (runs ?s' ! j)"
      using exitHandler_closure[of _ ?sl "listeners s" "owner s" code sg] True
      by (simp add: firstError_def)
    have "evolves ?sl ?s'" by (rule exitHandler_evolves)
    have sf: "listeners (settle i p x) = listeners x" "owner (settle i p x) = owner x"
       "childProcess (settle i p x) = childProcess x" for i p x
      by (simp_all add: settle_def split: promise.splits)
    have f: "length (runs ?s') = length (runs s) \<and> listeners ?s' = listeners s - {ExitL} \<and>
        owner ?s' = owner s \<and> childProcess ?s' = childProcess s"
      unfolding exitHandler_def Let_def
      by (simp add: sf settle_length split: jsval.splits option.splits rejectOnExit_t.splits bool.splits)
    have "step_ok ev s ?s'"
      using c f True Exit by (intro step_okI) (simp_all add: fired_def assigns_def)
    then show ?thesis using Exit True by simp
  qed
next
  case (TimerRejected i err)
  show ?thesis
  proof (cases "i < length (runs s) \<and> timerArmed (runs s ! i)")
    case False
    then show ?thesis using TimerRejected by (auto simp: step_ok_same fired_def)
  next
    case True
    let ?s0 = "s\<lparr>runs := (runs s)[i := (runs s ! i)\<lparr>timerArmed := False\<rparr>]\<rparr>"
    obtain t s' where h: "errorHandler i err (Some True) ?s0 = (t, s')" by (metis surj_pair)
    then have ep: "error_path i ?s0 s'" by (rule errorHandler_error_path)
    have c: "\<forall>j < length (runs s).
        closure_evolves (j = owner s) (listeners s) (firstError s) (runs s ! j) (runs s' ! j)"
    proof (intro allI impI)
      fix j assume j: "j < length (runs s)"
      then have "j < length (runs ?s0)" by simp
      then have "closure_evolves (j = owner s) (listeners s) (firstError s) (runs ?s0 ! j) (runs s' ! j)"
        by (rule error_path_closure[OF ep])
      moreover have "mergedOptions (runs ?s0 ! j) = mergedOptions (runs s ! j)"
         "promise (runs ?s0 ! j) = promise (runs s ! j)"
        using j True by (simp_all add: nth_list_update)
      ultimately show "closure_evolves (j = owner s) (listeners s) (firstError s) (runs s ! j) (runs s' ! j)"
        by (metis closure_evolves_trans_same)
    qed
    have l: "length (runs s') = length (runs s)"
      using error_path_length[OF ep] by simp
    have f: "listeners s' = listeners s" "owner s' = owner s" "childProcess s' = childProcess s"
       "processResult s' = processResult s"
      using ep unfolding error_path_def by simp_all
    have "step_ok ev s s'"
      using c l f TimerRejected by (intro step_okI) (simp_all add: fired_def)
    then show ?thesis using TimerRejected True h by simp
  qed
next
  case (WaitUntilSettled k polled)
  have f: "runs (waitSettled k polled s) = runs s" "listeners (waitSettled k polled s) = listeners s"
       "owner (waitSettled k polled s) = owner s" "childProcess (waitSettled k polled s) = childProcess s"
       "processResult (waitSettled k polled s) = processResult s"
    by (simp_all add: waitSettled_def Let_def log_line_def split: option.splits logger.splits)
  have "step_ok ev s (waitSettled k polled s)"
    using f WaitUntilSettled by (intro step_okI) (simp_all add: closure_evolves_refl fired_def)
  then show ?thesis using WaitUntilSettled by (simp add: step_ok_same fired_def)
next
  case (Finally i)
  let ?s' = "cleanup (s\<lparr>runs := (runs s)[i := (runs s ! i)\<lparr>finallyRan := True\<rparr>]\<rparr>)"
  have c: "\<forall>j < length (runs s).
        closure_evolves (j = owner s) (listeners s) (firstError s) (runs s ! j) (runs ?s' ! j)"
    by (cases "i < length (runs s)")
       (auto simp: cleanup_def nth_list_update list_update_beyond closure_evolves_same closure_evolves_refl)
  have "step_ok ev s ?s'"
    using c Finally by (intro step_okI) (simp_all add: cleanup_def fired_def)
  then show ?thesis using Finally by (simp add: step_ok_same fired_def)
qed


lemma pendingTerminal_registered: "listeners s = registered child \<Longrightarrow> pendingTerminal s = 2"
  by (simp add: pendingTerminal_def registered_def)








lemma step_ok_length: "step_ok ev s s' \<Longrightarrow> j < length (runs s) \<Longrightarrow> j < length (runs s')"
  unfolding step_ok_def by (elim conjE) (rule less_le_trans)

lemma step_pending_forever:
  assumes "pending_forever s"
  shows "pending_forever (snd (step ev s))"
proof -
  let ?s' = "snd (step ev s)"
  have ok: "step_ok ev s ?s'" by (rule step_ok_step)
  have h: "0 < length (runs s)" "promise (runs s ! 0) = Pending"
     "\<not> rejects (rejectOnError (mergedOptions (runs s ! 0)))" "listeners s = {} \<or> owner s \<noteq> 0"
    using assms by (simp_all add: pending_forever_def)
  have c: "closure_evolves (0 = owner s) (listeners s) (firstError s) (runs s ! 0) (runs ?s' ! 0)"
    using ok h(1) unfolding step_ok_def by blast
  have m: "mergedOptions (runs ?s' ! 0) = mergedOptions (runs s ! 0)"
    using c by (simp add: closure_evolves_def)
  have p: "promise (runs ?s' ! 0) = Pending"
    using c h(2,3,4) unfolding closure_evolves_def by auto
  have l: "0 < length (runs ?s')"
    using ok h(1) by (rule step_ok_length)
  have o: "listeners ?s' = {} \<or> owner ?s' \<noteq> 0"
    using ok h(1,4) unfolding step_ok_def by auto
  show ?thesis
    unfolding pending_forever_def using m p l o h(3) by simp
qed

lemma exec_pending_forever: "pending_forever s \<Longrightarrow> pending_forever (exec evs s)"
  by (induction evs arbitrary: s) (simp_all add: step_pending_forever)





lemma exitHandler_listeners: "listeners (exitHandler i code sg s) = listeners s"
proof -
  have sf: "listeners (settle i p x) = listeners x" for p x
    by (simp add: settle_def split: promise.splits)
  show ?thesis
    unfolding exitHandler_def Let_def
    by (simp add: sf split: jsval.splits option.splits rejectOnExit_t.splits bool.splits)
qed

section \<open>The claims\<close>

subsection \<open>C1: the output strings\<close>

text \<open>
  Claim C1: the \<^verbatim>\<open>stdout\<close> (and \<^verbatim>\<open>stderr\<close>) field of the result is the concatenation of
  the chunks received, in arrival order, trimmed at both ends, with nothing inserted between
  chunks. \<^verbatim>\<open>makeResult\<close> calls \<^verbatim>\<open>join()\<close> without a separator, and the separator is then a
  comma: when \<^verbatim>\<open>hello\<close> arrives as the two chunks \<^verbatim>\<open>hel\<close> and \<^verbatim>\<open>lo\<close>, the run with default
  options resolves with \<^verbatim>\<open>stdout = "hel,lo"\<close>.
\<close>

theorem stdout_joined_with_commas:
  "promise (runs (exec [CallRun noParams (SpawnReturns (piped_child 7)),
       StdoutData (str ''hel''), StdoutData (str ''lo''), Exit (Val 0) Null, Close (Val 0) Null] echo) ! 0)
   = Resolved \<lparr>exitCode = Val 0, error = Undefined, stdout = str ''hel,lo'', stderr = str '''', signal = Null\<rparr>"
  by (simp add: eval_defs)

subsection \<open>C2: when the cached result is assigned\<close>




subsection \<open>C3: a spawn that fails\<close>




text \<open>
  The other way a spawn fails is an exception thrown by \<^verbatim>\<open>crossSpawn.spawn\<close> itself. The
  \<^verbatim>\<open>catch\<close> block calls the error handler and returns: with the default options the error
  is recorded, no handle exists, and the promise stays pending whatever happens afterwards.
\<close>

theorem spawn_throw_leaves_run_pending:
  "fst (run noParams (SpawnThrows err) echo) = PromiseOf 0 \<and>
   processErrors (snd (run noParams (SpawnThrows err) echo)) = [err] \<and>
   childProcess (snd (run noParams (SpawnThrows err) echo)) = None \<and>
   result (snd (run noParams (SpawnThrows err) echo)) = None \<and>
   promise (runs (exec evs (snd (run noParams (SpawnThrows err) echo))) ! 0) = Pending"
proof -
  have "pending_forever (snd (run noParams (SpawnThrows err) echo))"
    by (simp add: pending_forever_def rejects_def eval_defs)
  then have "pending_forever (exec evs (snd (run noParams (SpawnThrows err) echo)))"
    by (rule exec_pending_forever)
  then have "promise (runs (exec evs (snd (run noParams (SpawnThrows err) echo))) ! 0) = Pending"
    by (simp add: pending_forever_def)
  moreover have "fst (run noParams (SpawnThrows err) echo) = PromiseOf 0 \<and>
   processErrors (snd (run noParams (SpawnThrows err) echo)) = [err] \<and>
   childProcess (snd (run noParams (SpawnThrows err) echo)) = None \<and>
   result (snd (run noParams (SpawnThrows err) echo)) = None"
    by (simp add: eval_defs)
  ultimately show ?thesis by simp
qed

subsection \<open>C4: forced stop\<close>

text \<open>
  Claim C4: \<^verbatim>\<open>stop(true, signal)\<close> on a live process sends the signal and starts a wait with
  a deadline of 3000 ms and a poll interval of 200 ms; when that wait, still pending after
  any further events, resolves without having seen \<^verbatim>\<open>stopped\<close>, \<^verbatim>\<open>SIGKILL\<close> is sent to the same
  handle. If that \<^verbatim>\<open>kill\<close> throws, a warning is logged (when logging is on) and nothing else
  changes: no error is recorded, no promise is touched, no exception escapes.
\<close>

theorem forced_stop_escalates_to_SIGKILL:
  assumes "childProcess s = Some child" "processResult s = None" "handle_kill child sg = None"
    and "wait_pending (waits (exec evs (snd (stop (Some True) sg s))) ! length (waits s))"
  shows "stop (Some True) sg s = (None, s\<lparr>kills := kills s @ [sg], waits := waits s @ [forced_wait s]\<rparr>) \<and>
         wait_timeout (forced_wait s) = 3000 \<and> wait_interval (forced_wait s) = 200 \<and>
         (let s2 = exec evs (snd (stop (Some True) sg s));
              r = step (WaitUntilSettled (length (waits s)) False) s2
          in fst r = None \<and> processErrors (snd r) = processErrors s2 \<and> runs (snd r) = runs s2 \<and>
             processResult (snd r) = processResult s2 \<and>
             (case handle_kill child (Some SIGKILL) of
                None \<Rightarrow> kills (snd r) = kills s2 @ [Some SIGKILL] \<and> logged (snd r) = logged s2
              | Some e \<Rightarrow> kills (snd r) = kills s2 \<and>
                  logged (snd r) = (case log s of
                     Logger \<Rightarrow> logged s2 @ [(Warn, sigkill_failed (pid s) (command s))]
                   | NullLogger \<Rightarrow> logged s2)))"
proof -
  let ?k = "length (waits s)"
  let ?s1 = "s\<lparr>kills := kills s @ [sg], waits := waits s @ [forced_wait s]\<rparr>"
  let ?s2 = "exec evs ?s1"
  have st: "stop (Some True) sg s = (None, ?s1)"
    using stop_live[OF assms(1-3), of "Some True"] by simp
  have ev: "evolves ?s1 ?s2"
    by (rule exec_evolves)
  have k1: "?k < length (waits ?s1)" "waits ?s1 ! ?k = forced_wait s" "childProcess ?s1 = Some child" "log ?s1 = log s"
    using assms(1) by simp_all
  have c2: "childProcess ?s2 = Some child" "log ?s2 = log s" and k2: "?k < length (waits ?s2)"
    and ws: "wait_step (waits ?s1 ! ?k) (waits ?s2 ! ?k)"
    using ev k1 unfolding evolves_def by auto
  have pend: "wait_pending (waits ?s2 ! ?k)"
    using assms(4) st by simp
  have w: "waits ?s2 ! ?k = forced_wait s"
    using ws pend k1(2) by (auto simp: wait_step_def)
  have stp: "step (WaitUntilSettled ?k False) ?s2 = (None, waitSettled ?k False ?s2)"
    using k2 pend by simp
  have wp: "wait_pid (forced_wait s) = pid s" "wait_command (forced_wait s) = command s"
     "wait_timeout (forced_wait s) = 3000" "wait_interval (forced_wait s) = 200"
    by (simp_all add: forced_wait_def)
  have fin: "processErrors (waitSettled ?k False ?s2) = processErrors ?s2 \<and> runs (waitSettled ?k False ?s2) = runs ?s2 \<and>
             processResult (waitSettled ?k False ?s2) = processResult ?s2 \<and>
             (case handle_kill child (Some SIGKILL) of
                None \<Rightarrow> kills (waitSettled ?k False ?s2) = kills ?s2 @ [Some SIGKILL] \<and> logged (waitSettled ?k False ?s2) = logged ?s2
              | Some e \<Rightarrow> kills (waitSettled ?k False ?s2) = kills ?s2 \<and>
                  logged (waitSettled ?k False ?s2) = (case log s of
                     Logger \<Rightarrow> logged ?s2 @ [(Warn, sigkill_failed (pid s) (command s))]
                   | NullLogger \<Rightarrow> logged ?s2))"
    using c2 w wp(1,2)
    by (simp add: waitSettled_def Let_def log_line_def split: option.splits logger.splits)
  show ?thesis
    unfolding Let_def st snd_conv stp fst_conv
    using fin wp(3,4) by simp
qed

text \<open>
  A handle that refuses \<^verbatim>\<open>SIGKILL\<close>: the warning is logged and the run carries no error.
\<close>

theorem forced_stop_escalates_to_SIGKILL_witness:
  "(let s = snd (run noParams (SpawnReturns (stubborn_child 7)) echo);
        s2 = exec [StdoutData (str ''busy'')] (snd (stop (Some True) None s));
        s3 = snd (step (WaitUntilSettled 0 False) s2)
    in childProcess s = Some (stubborn_child 7) \<and> processResult s = None \<and>
       wait_pending (waits s2 ! 0) \<and> kills s2 = [None] \<and> kills s3 = [None] \<and>
       logged s3 = logged s2 @ [(Warn, sigkill_failed 7 (str ''echo''))] \<and>
       processErrors s3 = [] \<and> runs s3 = runs s2)"
proof -
  define s where "s = snd (run noParams (SpawnReturns (stubborn_child 7)) echo)"
  have h: "childProcess s = Some (stubborn_child 7)" "processResult s = None"
     "handle_kill (stubborn_child 7) None = None"
    by (simp_all add: s_def stubborn_child_def eval_defs)
  have w: "waits s = []" "kills s = []" "log s = Logger" "pid s = 7" "command s = str ''echo''"
    by (simp_all add: s_def stubborn_child_def eval_defs)
  have st: "stop (Some True) None s = (None, s\<lparr>kills := kills s @ [None], waits := waits s @ [forced_wait s]\<rparr>)"
    using stop_live[OF h, of "Some True"] by simp
  have h4: "wait_pending (waits (exec [StdoutData (str ''busy'')] (snd (stop (Some True) None s))) ! length (waits s))"
    unfolding st snd_conv
    by (simp add: s_def stubborn_child_def forced_wait_def eval_defs)
  have k: "handle_kill (stubborn_child 7) (Some SIGKILL) = Some (Error (str ''kill EPERM''))"
    by (simp add: stubborn_child_def)
  have k2: "kills (exec [StdoutData (str ''busy'')] (snd (stop (Some True) None s))) = [None]"
       "processErrors (exec [StdoutData (str ''busy'')] (snd (stop (Some True) None s))) = []"
    unfolding st snd_conv
    by (simp_all add: s_def stubborn_child_def forced_wait_def eval_defs)
  show ?thesis
    using h(1,2) h4 k2 forced_stop_escalates_to_SIGKILL[OF h h4]
    unfolding Let_def s_def[symmetric] st snd_conv by (simp add: k w del: exec.simps step.simps)
qed

subsection \<open>C5: calling run again\<close>

text \<open>
  Claim C5, as the code has it: once a call of \<^verbatim>\<open>run\<close> has obtained a process handle, every
  later call of \<^verbatim>\<open>run\<close>, after any events, is rejected at once with
  \<^verbatim>\<open>process already started\<close> and changes nothing.
\<close>

theorem second_run_already_started:
  assumes "childProcess s \<noteq> None"
  shows "run params sp (exec evs s) = (RejectedAtOnce already_started, exec evs s)"
proof -
  have "evolves s (exec evs s)" by (rule exec_evolves)
  then have "childProcess (exec evs s) \<noteq> None"
    using assms by (auto simp: evolves_def)
  then show ?thesis by (simp add: run_def)
qed

text \<open>
  A second call after the first run has exited, closed and cleaned up.
\<close>

theorem second_run_already_started_witness:
  "childProcess (snd (run noParams (SpawnReturns (piped_child 7)) echo)) \<noteq> None \<and>
   fst (run noParams (SpawnReturns (piped_child 8))
     (exec [Exit (Val 0) Null, Close (Val 0) Null, Finally 0] (snd (run noParams (SpawnReturns (piped_child 7)) echo))))
   = RejectedAtOnce already_started"
proof -
  have h: "childProcess (snd (run noParams (SpawnReturns (piped_child 7)) echo)) \<noteq> None"
    by (simp add: eval_defs)
  show ?thesis
    using h second_run_already_started[OF h, of noParams "SpawnReturns (piped_child 8)" "[Exit (Val 0) Null, Close (Val 0) Null, Finally 0]"] by simp
qed

text \<open>
  Claim C5 as stated says that every call of \<^verbatim>\<open>run\<close> after the first fails. The guard tests
  \<^verbatim>\<open>this.childProcess\<close>: a first call that failed before the spawn (here on a completed
  \<^verbatim>\<open>Timeout\<close>) leaves no handle, and the second call spawns a process.
\<close>

theorem run_after_completed_timeout_spawns:
  "run noParams (SpawnReturns (piped_child 8))
      (snd (run (noParams\<lparr>timeout := Some \<lparr>completed = True\<rparr>\<rparr>) (SpawnReturns (piped_child 7)) echo))
   \<noteq> (RejectedAtOnce already_started,
       snd (run (noParams\<lparr>timeout := Some \<lparr>completed = True\<rparr>\<rparr>) (SpawnReturns (piped_child 7)) echo)) \<and>
   fst (run noParams (SpawnReturns (piped_child 8))
      (snd (run (noParams\<lparr>timeout := Some \<lparr>completed = True\<rparr>\<rparr>) (SpawnReturns (piped_child 7)) echo)))
   = PromiseOf 1 \<and>
   length (spawned (snd (run noParams (SpawnReturns (piped_child 8))
      (snd (run (noParams\<lparr>timeout := Some \<lparr>completed = True\<rparr>\<rparr>) (SpawnReturns (piped_child 7)) echo))))) = 1"
  by (simp add: eval_defs)

subsection \<open>C6: stopped is permanent\<close>

text \<open>
  Claim C6: once \<^verbatim>\<open>stopped\<close> is true (a handle exists and a result has been produced) it stays
  true after any events, and every call of \<^verbatim>\<open>stop\<close> throws
  \<^verbatim>\<open>Attempting to kill a process that has already been killed\<close>, leaving the state as it is.
\<close>

theorem stopped_is_permanent: 
  assumes "stopped s"
  shows "stopped (exec evs s) \<and> stop force sg (exec evs s) = (Some already_killed, exec evs s)"
proof -
  have a: "childProcess s \<noteq> None" "processResult s \<noteq> None"
    using assms by (auto simp: stopped_def split: option.splits)
  have "evolves s (exec evs s)" by (rule exec_evolves)
  then have b: "childProcess (exec evs s) \<noteq> None" "processResult (exec evs s) \<noteq> None"
    using a by (auto simp: evolves_def)
  then have "stopped (exec evs s)"
    by (auto simp: stopped_def split: option.splits)
  then show ?thesis
    using b by (auto simp: stop_def split: option.splits)
qed

text \<open>
  A process that has exited: \<^verbatim>\<open>stopped\<close> holds, and still holds after the close event and a
  first refused \<^verbatim>\<open>stop\<close>; the next \<^verbatim>\<open>stop\<close> is refused as well.
\<close>

theorem stopped_is_permanent_witness:
  "stopped (exec [CallRun noParams (SpawnReturns (piped_child 7)), Exit (Val 0) Null] echo) \<and>
   stopped (exec [Close (Val 0) Null, CallStop None None]
      (exec [CallRun noParams (SpawnReturns (piped_child 7)), Exit (Val 0) Null] echo)) \<and>
   fst (stop (Some True) None (exec [Close (Val 0) Null, CallStop None None]
      (exec [CallRun noParams (SpawnReturns (piped_child 7)), Exit (Val 0) Null] echo))) = Some already_killed"
proof -
  have h: "stopped (exec [CallRun noParams (SpawnReturns (piped_child 7)), Exit (Val 0) Null] echo)"
    by (simp add: eval_defs)
  show ?thesis
    using h stopped_is_permanent[OF h, of "[Close (Val 0) Null, CallStop None None]" "Some True" None] by simp
qed

subsection \<open>C7: a Timeout that is already completed\<close>

text \<open>
  Claim C7: a call of \<^verbatim>\<open>run\<close> whose merged options carry a completed \<^verbatim>\<open>Timeout\<close> fails at
  once and spawns nothing: \<^verbatim>\<open>crossSpawn.spawn\<close> is not called, the handle and its listeners
  are as before, and the promise returned is already rejected, with
  \<^verbatim>\<open>Timeout token was already completed.\<close> (or with \<^verbatim>\<open>process already started\<close> when the
  supervisor has a handle already).
\<close>

theorem completed_timeout_fails_without_spawn:
  assumes "timeout (mergeOptions (options s) params) = Some t" "completed t"
  shows "spawned (snd (run params sp s)) = spawned s \<and>
         childProcess (snd (run params sp s)) = childProcess s \<and>
         listeners (snd (run params sp s)) = listeners s \<and>
         (case fst (run params sp s) of
            RejectedAtOnce e \<Rightarrow> e = already_started
          | PromiseOf i \<Rightarrow> promise (runs (snd (run params sp s)) ! i) = Rejected timeout_completed)"
proof (cases "childProcess s")
  case (Some child)
  then show ?thesis by (simp add: run_def)
next
  case None
  define s1 where "s1 = log_line Info (str ''Running: '' @ toString s) s"
  define s2 where "s2 = s1\<lparr>runs := runs s1 @
                   [\<lparr>mergedOptions = withDefaults (mergeOptions (options s1) params), promise = Pending,
                     timerArmed = False, finallyRan = False\<rparr>]\<rparr>"
  have o: "options s1 = options s" "runs s1 = runs s" "spawned s1 = spawned s" "childProcess s1 = childProcess s"
     "listeners s1 = listeners s"
    by (simp_all add: s1_def log_line_def split: logger.splits)
  have r: "run params sp s = (PromiseOf (length (runs s1)), executor (length (runs s1)) (args s1 @ (case extraArgs (mergeOptions (options s1) params) of None \<Rightarrow> [] | Some xs \<Rightarrow> xs)) sp s2)"
    using None unfolding run_def Let_def s1_def s2_def by simp
  have "timeout (mergedOptions (runs s2 ! length (runs s1))) = Some t"
    using assms(1) o by (simp add: s2_def withDefaults_def)
  then have a: "attach_timeout (length (runs s1)) s2 = Inl timeout_completed"
    using assms(2) by (simp add: attach_timeout_def)
  have e: "executor (length (runs s1)) argv sp s2 = settle (length (runs s1)) (Rejected timeout_completed) s2" for argv
    using a by (simp add: executor_def)
  have "settle (length (runs s1)) (Rejected timeout_completed) s2 =
          s2\<lparr>runs := runs s1 @ [\<lparr>mergedOptions = withDefaults (mergeOptions (options s1) params), promise = Rejected timeout_completed,
                     timerArmed = False, finallyRan = False\<rparr>]\<rparr>"
    by (simp add: settle_def s2_def)
  then show ?thesis
    using r e o by (simp add: s2_def)
qed

text \<open>
  A fresh supervisor run with a completed token.
\<close>

theorem completed_timeout_fails_without_spawn_witness:
  "timeout (mergeOptions (options echo) (noParams\<lparr>timeout := Some \<lparr>completed = True\<rparr>\<rparr>)) = Some \<lparr>completed = True\<rparr> \<and>
   spawned (snd (run (noParams\<lparr>timeout := Some \<lparr>completed = True\<rparr>\<rparr>) (SpawnReturns (piped_child 7)) echo)) = [] \<and>
   childProcess (snd (run (noParams\<lparr>timeout := Some \<lparr>completed = True\<rparr>\<rparr>) (SpawnReturns (piped_child 7)) echo)) = None \<and>
   promise (runs (snd (run (noParams\<lparr>timeout := Some \<lparr>completed = True\<rparr>\<rparr>) (SpawnReturns (piped_child 7)) echo)) ! 0)
     = Rejected timeout_completed"
proof -
  have h: "timeout (mergeOptions (options echo) (noParams\<lparr>timeout := Some \<lparr>completed = True\<rparr>\<rparr>)) = Some \<lparr>completed = True\<rparr>"
    by (simp add: eval_defs)
  have f: "fst (run (noParams\<lparr>timeout := Some \<lparr>completed = True\<rparr>\<rparr>) (SpawnReturns (piped_child 7)) echo) = PromiseOf 0"
    by (simp add: eval_defs)
  have e: "spawned echo = []" "childProcess echo = None"
    by (simp_all add: eval_defs)
  show ?thesis
    using h f e completed_timeout_fails_without_spawn[OF h, of "SpawnReturns (piped_child 7)"] by simp
qed

subsection \<open>C8: expiry of the Timeout\<close>

text \<open>
  Claim C8: the rejection of the timer of an attached \<^verbatim>\<open>Timeout\<close> goes through the error
  handler with \<^verbatim>\<open>force = true\<close>: the error is recorded, and on a live process the signal is
  sent and the forced wait is started, whatever \<^verbatim>\<open>useForceStop\<close> says.
\<close>

theorem timer_rejection_forces_stop:
  assumes "i < length (runs s)" "timerArmed (runs s ! i)"
    and "childProcess s = Some child" "processResult s = None" "handle_kill child None = None"
  shows "fst (step (TimerRejected i err) s) = None \<and>
         processErrors (snd (step (TimerRejected i err) s)) = processErrors s @ [err] \<and>
         kills (snd (step (TimerRejected i err) s)) = kills s @ [None] \<and>
         waits (snd (step (TimerRejected i err) s)) = waits s @ [forced_wait s]"
proof -
  define s0 where "s0 = s\<lparr>runs := (runs s)[i := (runs s ! i)\<lparr>timerArmed := False\<rparr>]\<rparr>"
  define s1 where "s1 = s0\<lparr>processErrors := processErrors s0 @ [err]\<rparr>"
  have live: "childProcess s1 = Some child" "processResult s1 = None"
    using assms by (simp_all add: s1_def s0_def)
  have ns: "\<not> stopped s1"
    using live by (simp add: stopped_def)
  have fw: "forced_wait s1 = forced_wait s"
    by (simp add: forced_wait_def s1_def s0_def pid_def)
  have st: "stop (Some True) None s1 = (None, s1\<lparr>kills := kills s1 @ [None], waits := waits s1 @ [forced_wait s]\<rparr>)"
    using stop_live[OF live assms(5), of "Some True"] fw by simp
  define s2 where "s2 = s1\<lparr>kills := kills s1 @ [None], waits := waits s1 @ [forced_wait s]\<rparr>"
  have eh: "errorHandler i err (Some True) s0 =
     (case rejectOnError (mergedOptions (runs s0 ! i)) of
                Some (RejectOnErrorFn g) \<Rightarrow> (None, settle i (Rejected (g err)) s2)
              | Some (RejectOnErrorBool True) \<Rightarrow> (None, settle i (Rejected err) s2)
              | _ \<Rightarrow> (None, s2))"
    unfolding errorHandler_def Let_def s1_def[symmetric] using ns st
    by (simp add: s2_def split: option.splits rejectOnError_t.splits bool.splits)
  have sf: "processErrors (settle i p s2) = processErrors s2" "kills (settle i p s2) = kills s2"
     "waits (settle i p s2) = waits s2" for p
    by (simp_all add: settle_def split: promise.splits)
  have f: "processErrors s2 = processErrors s @ [err]" "kills s2 = kills s @ [None]"
      "waits s2 = waits s @ [forced_wait s]"
    by (simp_all add: s2_def s1_def s0_def)
  have "step (TimerRejected i err) s = errorHandler i err (Some True) s0"
    using assms(1,2) by (simp add: s0_def)
  then show ?thesis
    using eh f sf
    by (simp split: option.splits rejectOnError_t.splits bool.splits)
qed

text \<open>
  A run with \<^verbatim>\<open>useForceStop = false\<close> whose token expires.
\<close>

theorem timer_rejection_forces_stop_witness:
  "(let s = snd (run (noParams\<lparr>timeout := Some \<lparr>completed = False\<rparr>, useForceStop := Some False\<rparr>)
                 (SpawnReturns (piped_child 7)) echo);
        s' = snd (step (TimerRejected 0 (Error (str ''expired''))) s)
    in timerArmed (runs s ! 0) \<and> useForceStop (mergedOptions (runs s ! 0)) = Some False \<and>
       childProcess s = Some (piped_child 7) \<and> processResult s = None \<and>
       kills s' = [None] \<and> waits s' = [forced_wait s] \<and> wait_timeout (waits s' ! 0) = 3000)"
proof -
  define s where "s = snd (run (noParams\<lparr>timeout := Some \<lparr>completed = False\<rparr>, useForceStop := Some False\<rparr>)
                 (SpawnReturns (piped_child 7)) echo)"
  have h: "0 < length (runs s)" "timerArmed (runs s ! 0)" "childProcess s = Some (piped_child 7)"
      "processResult s = None" "handle_kill (piped_child 7) None = None"
    by (simp_all add: s_def eval_defs)
  have u: "useForceStop (mergedOptions (runs s ! 0)) = Some False" "kills s = []" "waits s = []"
    by (simp_all add: s_def eval_defs)
  show ?thesis
    using h u timer_rejection_forces_stop[OF h, of "Error (str ''expired'')"]
    by (simp add: Let_def s_def[symmetric] forced_wait_def)
qed

subsection \<open>C9: the first error wins\<close>




subsection \<open>C10: null codes and signals at exit and at close\<close>

text \<open>
  Claim C10: the exit listener stores \<open>-1\<close> for a code that is not a number and
  \<^verbatim>\<open>undefined\<close> for a signal that is not a string, and leaves the close listener as it was;
  the close listener, whether or not the exit listener has run before it, stores the code and
  the signal as the event delivers them, and it is that result which resolves a pending run.
\<close>

theorem exit_maps_null_close_does_not:
  "(ExitL \<in> listeners s \<longrightarrow>
      map_option exitCode (processResult (snd (step (Exit code sg) s)))
        = Some (case code of Val n \<Rightarrow> Val n | _ \<Rightarrow> Val (- 1)) \<and>
      map_option signal (processResult (snd (step (Exit code sg) s)))
        = Some (case sg of Val x \<Rightarrow> Val x | _ \<Rightarrow> Undefined) \<and>
      ExitL \<notin> listeners (snd (step (Exit code sg) s)) \<and>
      (CloseL \<in> listeners (snd (step (Exit code sg) s))) = (CloseL \<in> listeners s)) \<and>
   (CloseL \<in> listeners s' \<longrightarrow>
      map_option exitCode (processResult (snd (step (Close code' sg') s'))) = Some code' \<and>
      map_option signal (processResult (snd (step (Close code' sg') s'))) = Some sg' \<and>
      (if owner s' < length (runs s') \<and> promise (runs s' ! owner s') = Pending
       then promise (runs (snd (step (Close code' sg') s')) ! owner s') = Resolved (makeResult code' sg' s')
       else runs (snd (step (Close code' sg') s')) = runs s'))"
proof -
  have x: "processResult (exitHandler i code sg s0) =
      Some (makeResult (case code of Val n \<Rightarrow> Val n | _ \<Rightarrow> Val (- 1)) (case sg of Val x \<Rightarrow> Val x | _ \<Rightarrow> Undefined) s0)" for i s0
  proof -
    have "processResult (settle i p s1) = processResult s1" for p s1
      by (simp add: settle_def split: promise.splits)
    then show ?thesis
      unfolding exitHandler_def Let_def
      by (simp split: jsval.splits option.splits rejectOnExit_t.splits bool.splits)
  qed
  have m: "exitCode (makeResult c g s0) = c" "signal (makeResult c g s0) = g" for c g s0
    by (simp_all add: makeResult_def)
  have mk: "makeResult c g (s'\<lparr>listeners := L\<rparr>) = makeResult c g s'" for c g L
    by (simp add: makeResult_def firstError_def)
  have c: "processResult (closeHandler i code' sg' s0) = Some (makeResult code' sg' s0)" for i s0
    by (simp add: closeHandler_def Let_def settle_def split: promise.splits)
  have p: "CloseL \<in> listeners s' \<longrightarrow>
         (if owner s' < length (runs s') \<and> promise (runs s' ! owner s') = Pending
          then promise (runs (snd (step (Close code' sg') s')) ! owner s') = Resolved (makeResult code' sg' s')
          else runs (snd (step (Close code' sg') s')) = runs s')"
    by (simp add: closeHandler_def Let_def settle_def mk list_update_beyond split: promise.splits)
  have e: "ExitL \<in> listeners s \<longrightarrow>
      map_option exitCode (processResult (snd (step (Exit code sg) s)))
        = Some (case code of Val n \<Rightarrow> Val n | _ \<Rightarrow> Val (- 1)) \<and>
      map_option signal (processResult (snd (step (Exit code sg) s)))
        = Some (case sg of Val x \<Rightarrow> Val x | _ \<Rightarrow> Undefined) \<and>
      ExitL \<notin> listeners (snd (step (Exit code sg) s)) \<and>
      (CloseL \<in> listeners (snd (step (Exit code sg) s))) = (CloseL \<in> listeners s)"
    by (simp add: x m exitHandler_listeners)
  have cl: "CloseL \<in> listeners s' \<longrightarrow>
      map_option exitCode (processResult (snd (step (Close code' sg') s'))) = Some code' \<and>
      map_option signal (processResult (snd (step (Close code' sg') s'))) = Some sg'"
    by (simp add: c m)
  show ?thesis
    using e cl p by blast
qed

text \<open>
  A process killed by \<^verbatim>\<open>SIGKILL\<close>, exit first and close after it: the exit listener stores
  \<open>-1\<close>, the close listener stores \<^verbatim>\<open>null\<close>, also in the result the run resolves with.
\<close>

theorem exit_maps_null_close_does_not_witness:
  "(let s = snd (run noParams (SpawnReturns (piped_child 7)) echo);
        s' = snd (step (Exit Null (Val SIGKILL)) s);
        s'' = snd (step (Close Null (Val SIGKILL)) s')
    in ExitL \<in> listeners s \<and> CloseL \<in> listeners s' \<and> ExitL \<notin> listeners s' \<and>
       map_option exitCode (processResult s') = Some (Val (- 1)) \<and>
       map_option signal (processResult s') = Some (Val SIGKILL) \<and>
       map_option exitCode (processResult s'') = Some Null \<and>
       promise (runs s' ! 0) = Pending \<and>
       promise (runs s'' ! 0) = Resolved (makeResult Null (Val SIGKILL) s') \<and>
       exitCode (makeResult Null (Val SIGKILL) s') = Null)"
proof -
  define s where "s = snd (run noParams (SpawnReturns (piped_child 7)) echo)"
  define s' where "s' = snd (step (Exit Null (Val SIGKILL)) s)"
  have h: "ExitL \<in> listeners s" "CloseL \<in> listeners s"
    by (simp_all add: s_def eval_defs)
  have o: "owner s' = 0" "length (runs s') = 1" "promise (runs s' ! 0) = Pending"
    by (simp_all add: s'_def s_def eval_defs)
  have m: "exitCode (makeResult c g s0) = c" for c g s0
    by (simp add: makeResult_def)
  note t = exit_maps_null_close_does_not[of s Null "Val SIGKILL" s' Null "Val SIGKILL"]
  have h': "CloseL \<in> listeners s'"
    using t h unfolding s'_def by blast
  show ?thesis
    unfolding Let_def s_def[symmetric] s'_def[symmetric]
    using t[folded s'_def] h h' o by (simp add: m del: step.simps)
qed

end
